theory Spec2Isabelle
  imports Main
begin

section \<open>Strings, numbers and exceptions\<close>

text \<open>
  A Python string is modelled as a \<^typ>\<open>string\<close>; a \<^typ>\<open>char\<close> stands for the code
  point of the same number, so the model covers the texts whose code points are below 256.
  The exceptions the code can raise are values: \<open>ValueError\<close> carries the offending item,
  \<open>KeyError\<close> the missing element.
\<close>

datatype error = ValueError string | OverflowError | KeyError string

definition ord :: "char \<Rightarrow> nat" where
  "ord c = of_char c"

definition chr :: "nat \<Rightarrow> char" where
  "chr n = char_of n"

text \<open>The classes of Python's \<open>re\<close> on \<open>str\<close> patterns: \<open>\d\<close>, \<open>[A-Z]\<close> and \<open>\w\<close>
  (letters, digits and the underscore; below 256 the letters and numeric characters
  beyond ASCII are the ones listed).\<close>

definition is_digit :: "char \<Rightarrow> bool" where
  "is_digit c = (48 \<le> ord c \<and> ord c \<le> 57)"

definition is_upper :: "char \<Rightarrow> bool" where
  "is_upper c = (65 \<le> ord c \<and> ord c \<le> 90)"

definition is_lower :: "char \<Rightarrow> bool" where
  "is_lower c = (97 \<le> ord c \<and> ord c \<le> 122)"

definition is_word :: "char \<Rightarrow> bool" where
  "is_word c = (is_digit c \<or> is_upper c \<or> is_lower c \<or> c = CHR ''_'' \<or>
     ord c \<in> {170, 178, 179, 181, 185, 186, 188, 189, 190} \<or>
     (192 \<le> ord c \<and> ord c \<noteq> 215 \<and> ord c \<noteq> 247))"

text \<open>\<open>int(s)\<close> on a string of digits (of any length: the limit that recent interpreters
  put on the number of digits is a setting of the interpreter), and \<open>str(n)\<close> on a number.\<close>

definition int_of_digits :: "string \<Rightarrow> nat" where
  "int_of_digits s = foldl (\<lambda>n c. 10 * n + (ord c - 48)) 0 s"

fun str_of_nat :: "nat \<Rightarrow> string" where
  "str_of_nat n =
     (if n < 10 then [chr (48 + n)] else str_of_nat (n div 10) @ [chr (48 + n mod 10)])"

declare str_of_nat.simps [simp del]

definition str_of_int :: "int \<Rightarrow> string" where
  "str_of_int i = (if i < 0 then CHR ''-'' # str_of_nat (nat (- i)) else str_of_nat (nat i))"

text \<open>\<open>sep.join(parts)\<close>.\<close>

fun join :: "string \<Rightarrow> string list \<Rightarrow> string" where
  "join sep [] = []"
| "join sep [x] = x"
| "join sep (x # y # ys) = x @ sep @ join sep (y # ys)"

text \<open>\<open>s.replace(old, new)\<close> for a non-empty \<open>old\<close>: the occurrences are replaced from the
  left and do not overlap.\<close>

fun str_replace :: "string \<Rightarrow> string \<Rightarrow> string \<Rightarrow> string" where
  "str_replace old new [] = []"
| "str_replace old new (c # cs) =
     (if old \<noteq> [] \<and> take (length old) (c # cs) = old
      then new @ str_replace old new (drop (length old - 1) cs)
      else c # str_replace old new cs)"

text \<open>
  The code prints a float in one place, \<open>str(int(a) + int(b) / 100.0)\<close>. Binary64
  arithmetic and Python's shortest round-trip printing are outside this model: the
  function from \<open>a\<close> and \<open>b\<close> to that text (or to the exception of the conversion) is a
  parameter \<open>float_str\<close> of the translator. \<open>decimal_float_str\<close> is the instance that
  prints the exact sum \<open>a + b / 100\<close>, which is what Python prints when the sum is below
  \<open>10 ^ 16\<close> and the binary64 sum is the double nearest to it (\<open>10 + 5 / 100.0\<close> prints as
  \<open>10.05\<close>); the conversion of an integer of \<open>2 ^ 1024 - 2 ^ 970\<close> or more to a float raises
  \<open>OverflowError\<close>. It is used for closed instances only.
\<close>

definition decimal_float_str :: "nat \<Rightarrow> nat \<Rightarrow> error + string" where
  "decimal_float_str a b =
     (if int a \<ge> 2 ^ 1024 - 2 ^ 970 \<or> int b \<ge> 2 ^ 1024 - 2 ^ 970 then Inl OverflowError
      else let n = 100 * a + b; f = n mod 100 in
        Inr (str_of_nat (n div 100) @ ''.'' @
             (if f mod 10 = 0 then str_of_nat (f div 10)
              else str_of_nat (f div 10) @ str_of_nat (f mod 10))))"

section \<open>The column names of the spreadsheet library\<close>

text \<open>
  \<open>column_index_from_string\<close> and \<open>get_column_letter\<close> belong to openpyxl, not to this
  repository. They are modelled after the library: a column name is one to three
  letters, read in base 26 after \<open>str.upper()\<close>; any other string raises \<open>ValueError\<close>.
  Column indices run from 1 to 18278 (\<open>ZZZ\<close>); any other index raises \<open>ValueError\<close>.
  \<open>upper\<close> is \<open>str.upper()\<close> as far as the lookup of a column name depends on it: exact on
  ASCII and on the sharp s (code point 223, which becomes \<open>SS\<close>); the other characters
  beyond ASCII have no upper-case form among \<open>A\<close> to \<open>Z\<close> and are left as they are.
\<close>

definition upper :: "string \<Rightarrow> string" where
  "upper s = concat (map (\<lambda>c. if is_lower c then [chr (ord c - 32)]
                               else if ord c = 223 then ''SS'' else [c]) s)"

definition column_index_from_string :: "string \<Rightarrow> error + nat" where
  "column_index_from_string str_col =
     (let u = upper str_col in
      if 1 \<le> length u \<and> length u \<le> 3 \<and> list_all is_upper u
      then Inr (foldl (\<lambda>n c. 26 * n + (ord c - 64)) 0 u)
      else Inl (ValueError str_col))"

fun column_letters :: "nat \<Rightarrow> string" where
  "column_letters idx =
     (if idx = 0 then []
      else column_letters ((idx - 1) div 26) @ [chr (65 + (idx - 1) mod 26)])"

declare column_letters.simps [simp del]

definition get_column_letter :: "nat \<Rightarrow> error + string" where
  "get_column_letter idx =
     (if 1 \<le> idx \<and> idx \<le> 18278 then Inr (column_letters idx)
      else Inl (ValueError (str_of_nat idx)))"

section \<open>Regular expressions\<close>

text \<open>
  Each pattern of the code is a matcher: given the text from some position on, it
  returns the groups and the length of the match that starts at that position, or
  \<open>None\<close>. In every pattern a greedy run is followed by a character outside the run's
  class, so the longest run is the only one that can match and no backtracking into a
  run is needed. \<open>re_sub\<close> is \<open>re.sub\<close> with a function as replacement: the leftmost
  match is replaced, the scan goes on after it, and an exception of the function ends
  the call. \<open>re_findall\<close> is \<open>re.findall\<close> for a pattern without groups.
\<close>

fun re_sub :: "(string \<Rightarrow> ('g \<times> nat) option) \<Rightarrow> ('g \<Rightarrow> error + string) \<Rightarrow> string
    \<Rightarrow> error + string" where
  "re_sub m f [] = Inr []"
| "re_sub m f (c # cs) =
     (case m (c # cs) of
        None \<Rightarrow> (case re_sub m f cs of Inl e \<Rightarrow> Inl e | Inr r \<Rightarrow> Inr (c # r))
      | Some (g, n) \<Rightarrow>
          (case f g of
             Inl e \<Rightarrow> Inl e
           | Inr t \<Rightarrow>
               (case re_sub m f (drop (n - 1) cs) of
                  Inl e \<Rightarrow> Inl e
                | Inr r \<Rightarrow> Inr (t @ r))))"

fun re_findall :: "(string \<Rightarrow> (string \<times> nat) option) \<Rightarrow> string \<Rightarrow> string list" where
  "re_findall m [] = []"
| "re_findall m (c # cs) =
     (case m (c # cs) of
        None \<Rightarrow> re_findall m cs
      | Some (g, n) \<Rightarrow> g # re_findall m (drop (n - 1) cs))"

text \<open>\<open>(\d+),(\d+)%\<close>\<close>

definition match_comma_percent :: "string \<Rightarrow> ((string \<times> string) \<times> nat) option" where
  "match_comma_percent s =
     (let d1 = takeWhile is_digit s; d2 = takeWhile is_digit (drop (length d1 + 1) s) in
      if d1 \<noteq> [] \<and> take 1 (drop (length d1) s) = '','' \<and> d2 \<noteq> [] \<and>
         take 1 (drop (length d1 + 1 + length d2) s) = ''%''
      then Some ((d1, d2), length d1 + 1 + length d2 + 1)
      else None)"

text \<open>\<open>(\d+)%\<close>\<close>

definition match_percent :: "string \<Rightarrow> (string \<times> nat) option" where
  "match_percent s =
     (let d1 = takeWhile is_digit s in
      if d1 \<noteq> [] \<and> take 1 (drop (length d1) s) = ''%''
      then Some (d1, length d1 + 1)
      else None)"

text \<open>\<open>SUM\((\w+):(\w+)\)\<close>\<close>

definition match_sum :: "string \<Rightarrow> ((string \<times> string) \<times> nat) option" where
  "match_sum s =
     (let w1 = takeWhile is_word (drop 4 s);
          w2 = takeWhile is_word (drop (4 + length w1 + 1) s) in
      if take 4 s = ''SUM('' \<and> w1 \<noteq> [] \<and> take 1 (drop (4 + length w1) s) = '':'' \<and>
         w2 \<noteq> [] \<and> take 1 (drop (4 + length w1 + 1 + length w2) s) = '')''
      then Some ((w1, w2), 4 + length w1 + 1 + length w2 + 1)
      else None)"

text \<open>\<open>(\d+),(\d+)\<close>\<close>

definition match_comma_decimal :: "string \<Rightarrow> ((string \<times> string) \<times> nat) option" where
  "match_comma_decimal s =
     (let d1 = takeWhile is_digit s; d2 = takeWhile is_digit (drop (length d1 + 1) s) in
      if d1 \<noteq> [] \<and> take 1 (drop (length d1) s) = '','' \<and> d2 \<noteq> []
      then Some ((d1, d2), length d1 + 1 + length d2)
      else None)"

text \<open>\<open>[A-Z]+\$?\d+\<close>: the match is returned whole.\<close>

definition match_ref :: "string \<Rightarrow> (string \<times> nat) option" where
  "match_ref s =
     (let l = takeWhile is_upper s;
          k = (if take 1 (drop (length l) s) = ''$'' then 1 else 0);
          d = takeWhile is_digit (drop (length l + k) s) in
      if l \<noteq> [] \<and> d \<noteq> []
      then Some (take (length l + k + length d) s, length l + k + length d)
      else None)"

section \<open>The Expression Translator\<close>

text \<open>The replacement functions of the three \<open>re.sub\<close> calls with a \<open>lambda\<close>, and of the
  one with the template \<open>\1.\2\<close>.\<close>

definition comma_percent_repl :: "(nat \<Rightarrow> nat \<Rightarrow> error + string) \<Rightarrow> string \<times> string
    \<Rightarrow> error + string" where
  "comma_percent_repl float_str g =
     (case float_str (int_of_digits (fst g)) (int_of_digits (snd g)) of
        Inl e \<Rightarrow> Inl e
      | Inr t \<Rightarrow> Inr (t @ ''/100''))"

definition percent_repl :: "string \<Rightarrow> error + string" where
  "percent_repl g = Inr (str_of_nat (int_of_digits g) @ ''/100'')"

text \<open>The generator of the range-sum: the bound of \<open>range\<close> is evaluated first (the column
  of the second group, then the column of the first), then one term for each \<open>i\<close>.\<close>

fun sum_terms :: "nat \<Rightarrow> string \<Rightarrow> nat list \<Rightarrow> error + string list" where
  "sum_terms c1 row [] = Inr []"
| "sum_terms c1 row (i # is) =
     (case get_column_letter (c1 + i) of
        Inl e \<Rightarrow> Inl e
      | Inr l \<Rightarrow>
          (case sum_terms c1 row is of
             Inl e \<Rightarrow> Inl e
           | Inr ts \<Rightarrow> Inr ((l @ row) # ts)))"

definition sum_repl :: "string \<times> string \<Rightarrow> error + string" where
  "sum_repl g =
     (case column_index_from_string (take 1 (snd g)) of
        Inl e \<Rightarrow> Inl e
      | Inr c2 \<Rightarrow>
          (case column_index_from_string (take 1 (fst g)) of
             Inl e \<Rightarrow> Inl e
           | Inr c1 \<Rightarrow>
               (case sum_terms c1 (drop 1 (fst g)) [0 ..< nat (int c2 - int c1 + 1)] of
                  Inl e \<Rightarrow> Inl e
                | Inr ts \<Rightarrow> Inr (join ''+'' ts))))"

definition comma_decimal_repl :: "string \<times> string \<Rightarrow> error + string" where
  "comma_decimal_repl g = Inr (fst g @ ''.'' @ snd g)"

text \<open>\<open>convert_to_js\<close>: the six rewriting steps, in the order of the code.\<close>

definition convert_to_js :: "(nat \<Rightarrow> nat \<Rightarrow> error + string) \<Rightarrow> string \<Rightarrow> error + string" where
  "convert_to_js float_str formula =
     (case re_sub match_comma_percent (comma_percent_repl float_str) formula of
        Inl e \<Rightarrow> Inl e
      | Inr f1 \<Rightarrow>
     (case re_sub match_percent percent_repl f1 of
        Inl e \<Rightarrow> Inl e
      | Inr f2 \<Rightarrow>
     (case re_sub match_sum sum_repl f2 of
        Inl e \<Rightarrow> Inl e
      | Inr f3 \<Rightarrow>
     (case re_sub match_comma_decimal comma_decimal_repl
             (str_replace ''MAX'' ''Math.max'' (str_replace ''MIN'' ''Math.min'' f3)) of
        Inl e \<Rightarrow> Inl e
      | Inr f5 \<Rightarrow> Inr (str_replace ''$'' [] f5)))))"

section \<open>Dictionaries and the dependency graph\<close>

text \<open>
  A Python \<open>dict\<close> keeps its keys in the order of their insertion: it is an association
  list. \<open>dict_set\<close> is \<open>d[k] = v\<close>: the value of an existing key is replaced in place, a
  new key goes to the end. The dependency graph maps a cell to the set of the cells it
  references; a set is a list here, in the order in which Python iterates over it, which
  the theorems below leave arbitrary. \<open>deps\<close> is \<open>graph.get(node, [])\<close>, which is also what
  \<open>graph[node]\<close> returns on the \<open>defaultdict(set)\<close> of the code.
\<close>

type_synonym cell_id = string
type_synonym graph = "(cell_id \<times> cell_id list) list"
type_synonym cells = "(cell_id \<times> string) list"

fun dict_set :: "('k \<times> 'v) list \<Rightarrow> 'k \<Rightarrow> 'v \<Rightarrow> ('k \<times> 'v) list" where
  "dict_set [] k v = [(k, v)]"
| "dict_set (p # ps) k v = (if fst p = k then (k, v) # ps else p # dict_set ps k v)"

definition keys :: "('k \<times> 'v) list \<Rightarrow> 'k list" where
  "keys d = map fst d"

definition deps :: "graph \<Rightarrow> cell_id \<Rightarrow> cell_id list" where
  "deps g node = (case map_of g node of None \<Rightarrow> [] | Some ds \<Rightarrow> ds)"

text \<open>\<open>s.add(x)\<close> on a set kept as a list.\<close>

definition set_add :: "'a \<Rightarrow> 'a list \<Rightarrow> 'a list" where
  "set_add x xs = (if x \<in> set xs then xs else xs @ [x])"

text \<open>Reading \<open>graph[vertex]\<close> on a \<open>defaultdict\<close> inserts a missing key with an empty set.\<close>

definition touch :: "graph \<Rightarrow> cell_id \<Rightarrow> graph" where
  "touch g v = (if v \<in> set (keys g) then g else g @ [(v, [])])"

text \<open>The edges of the graph: \<open>(a, b)\<close> when \<open>a\<close> references \<open>b\<close>.\<close>

definition edges :: "graph \<Rightarrow> (cell_id \<times> cell_id) set" where
  "edges g = {(a, b). b \<in> set (deps g a)}"

section \<open>The Cell Extractor\<close>

text \<open>
  The value of a sheet cell, as \<open>cell.value\<close> gives it: an \<open>int\<close>, a \<open>float\<close> (with the text
  that \<open>str\<close> prints for it), a \<open>bool\<close> (an \<open>int\<close> for \<open>isinstance\<close>), a \<open>str\<close>, or anything
  else (\<open>None\<close> for an empty cell). A sheet is the list of its rows.
\<close>

datatype cell_value = PyInt int | PyFloat string | PyBool bool | PyStr string | PyOther

definition number_text :: "cell_value \<Rightarrow> string option" where
  "number_text v =
     (case v of
        PyInt i \<Rightarrow> Some (str_of_int i)
      | PyFloat t \<Rightarrow> Some t
      | PyBool b \<Rightarrow> Some (if b then ''True'' else ''False'')
      | PyStr s \<Rightarrow> None
      | PyOther \<Rightarrow> None)"

record extraction =
  all_cells :: cells
  dependency_graph :: graph
  original_formulas :: cells
  defined_cells :: "cell_id set"

definition var_decl :: "cell_id \<Rightarrow> string \<Rightarrow> string" where
  "var_decl cell_ref expr = ''var '' @ cell_ref @ '' = '' @ expr @ '';''"

text \<open>The inner loop over the references of one formula.\<close>

fun add_refs :: "cell_id \<Rightarrow> string list \<Rightarrow> graph \<Rightarrow> graph" where
  "add_refs cell_ref [] g = g"
| "add_refs cell_ref (var_ref # var_refs) g =
     add_refs cell_ref var_refs
       (dict_set g cell_ref (set_add (str_replace ''$'' [] var_ref) (deps g cell_ref)))"

text \<open>The body of the loop over the cells.\<close>

definition extract_cell :: "(nat \<Rightarrow> nat \<Rightarrow> error + string) \<Rightarrow> nat \<Rightarrow> nat \<Rightarrow> cell_value
    \<Rightarrow> extraction \<Rightarrow> error + extraction" where
  "extract_cell float_str row_idx col_idx v st =
     (case get_column_letter col_idx of
        Inl e \<Rightarrow> Inl e
      | Inr letter \<Rightarrow>
          (let cell_ref = letter @ str_of_nat row_idx in
           case number_text v of
             Some t \<Rightarrow>
               Inr (st\<lparr>all_cells := dict_set (all_cells st) cell_ref (var_decl cell_ref t),
                       defined_cells := insert cell_ref (defined_cells st)\<rparr>)
           | None \<Rightarrow>
               (case v of
                  PyStr s \<Rightarrow>
                    if take 1 s = ''='' then
                      (case convert_to_js float_str (drop 1 s) of
                         Inl e \<Rightarrow> Inl e
                       | Inr js_formula \<Rightarrow>
                           Inr (st\<lparr>all_cells :=
                                     dict_set (all_cells st) cell_ref
                                       (var_decl cell_ref js_formula),
                                   dependency_graph :=
                                     add_refs cell_ref (re_findall match_ref (drop 1 s))
                                       (dependency_graph st),
                                   original_formulas :=
                                     dict_set (original_formulas st) cell_ref s,
                                   defined_cells := insert cell_ref (defined_cells st)\<rparr>))
                    else Inr st
                | _ \<Rightarrow> Inr st)))"

fun extract_row :: "(nat \<Rightarrow> nat \<Rightarrow> error + string) \<Rightarrow> nat \<Rightarrow> nat \<Rightarrow> cell_value list
    \<Rightarrow> extraction \<Rightarrow> error + extraction" where
  "extract_row float_str row_idx col_idx [] st = Inr st"
| "extract_row float_str row_idx col_idx (v # vs) st =
     (case extract_cell float_str row_idx col_idx v st of
        Inl e \<Rightarrow> Inl e
      | Inr st' \<Rightarrow> extract_row float_str row_idx (Suc col_idx) vs st')"

fun extract_rows :: "(nat \<Rightarrow> nat \<Rightarrow> error + string) \<Rightarrow> nat \<Rightarrow> cell_value list list
    \<Rightarrow> extraction \<Rightarrow> error + extraction" where
  "extract_rows float_str row_idx [] st = Inr st"
| "extract_rows float_str row_idx (row # rows) st =
     (case extract_row float_str row_idx 1 row st of
        Inl e \<Rightarrow> Inl e
      | Inr st' \<Rightarrow> extract_rows float_str (Suc row_idx) rows st')"

text \<open>The variables that are referenced but not defined get the declaration \<open>var X = 0;\<close>.
  The code iterates over a set here; the model takes its elements in the order of their
  first occurrence.\<close>

definition undefined_vars :: "extraction \<Rightarrow> cell_id list" where
  "undefined_vars st =
     filter (\<lambda>v. v \<notin> defined_cells st)
       (remdups (keys (all_cells st) @ concat (map snd (dependency_graph st))))"

fun init_undefined :: "cell_id list \<Rightarrow> cells \<Rightarrow> cells" where
  "init_undefined [] cs = cs"
| "init_undefined (v # vs) cs = init_undefined vs (dict_set cs v (var_decl v ''0''))"

definition extract_and_convert_all_cells :: "(nat \<Rightarrow> nat \<Rightarrow> error + string)
    \<Rightarrow> cell_value list list \<Rightarrow> error + cells \<times> graph \<times> cells" where
  "extract_and_convert_all_cells float_str sheet =
     (case extract_rows float_str 1 sheet
             \<lparr>all_cells = [], dependency_graph = [], original_formulas = [],
              defined_cells = {}\<rparr> of
        Inl e \<Rightarrow> Inl e
      | Inr st \<Rightarrow>
          Inr (init_undefined (undefined_vars st) (all_cells st), dependency_graph st,
               original_formulas st))"

section \<open>The sequencer of the pipeline\<close>

text \<open>
  \<open>resolve_and_sort\<close> keeps three variables that its inner function \<open>resolve\<close> updates:
  the set of resolved nodes, the set of the nodes being resolved, and the sorted list.
  \<open>resolve\<close> returns \<open>False\<close> when it meets a node that is being resolved, and then the
  caller raises \<open>ValueError\<close>. \<open>resolve_loop\<close> is the loop of \<open>resolve\<close> over the
  dependencies of its node. The depth of Python's recursion is taken as unbounded.
\<close>

record resolve_state =
  resolved :: "cell_id set"
  unresolved :: "cell_id set"
  sorted_nodes :: "cell_id list"

text \<open>The cells that occur in a value set of the graph, and the nodes that \<open>resolve\<close> has
  met so far.\<close>

definition dep_targets :: "graph \<Rightarrow> cell_id set" where
  "dep_targets g = (\<Union>ds \<in> snd ` set g. set ds)"

definition visited :: "resolve_state \<Rightarrow> cell_id set" where
  "visited st = resolved st \<union> unresolved st"

function resolve :: "graph \<Rightarrow> cell_id \<Rightarrow> resolve_state \<Rightarrow> bool \<times> resolve_state"
  and resolve_loop :: "graph \<Rightarrow> cell_id list \<Rightarrow> resolve_state \<Rightarrow> bool \<times> resolve_state"
where
  "resolve g node st =
     (if node \<in> resolved st then (True, st)
      else if node \<in> unresolved st then (False, st)
      else (case resolve_loop g (deps g node)
                   (st\<lparr>unresolved := insert node (unresolved st)\<rparr>) of
              (ok, st') \<Rightarrow>
                if ok
                then (True, st'\<lparr>resolved := insert node (resolved st'),
                                 unresolved := unresolved st' - {node},
                                 sorted_nodes := sorted_nodes st' @ [node]\<rparr>)
                else (False, st')))"
| "resolve_loop g [] st = (True, st)"
| "resolve_loop g (dep # ds) st =
     (case resolve g dep st of
        (ok, st') \<Rightarrow> if ok then resolve_loop g ds st' else (False, st'))"
  by pat_completeness auto

text \<open>What gets smaller in each call: the vertices not yet visited, then the rest of the
  loop.\<close>

definition resolve_measure ::
    "graph \<times> cell_id \<times> resolve_state + graph \<times> cell_id list \<times> resolve_state \<Rightarrow> nat \<times> nat" where
  "resolve_measure x =
     (case x of
        Inl (g, node, st) \<Rightarrow> (card (insert node (dep_targets g) - visited st), 0)
      | Inr (g, ds, st) \<Rightarrow>
          (card ((dep_targets g \<union> set ds) - visited st), Suc (length ds)))"

lemma deps_subset_targets: "set (deps g node) \<subseteq> dep_targets g"
proof (cases "map_of g node")
  case None
  then show ?thesis by (simp add: deps_def)
next
  case (Some ds)
  then have "(node, ds) \<in> set g" by (rule map_of_SomeD)
  then have "ds \<in> snd ` set g" by force
  with Some show ?thesis by (auto simp: deps_def dep_targets_def)
qed

lemma finite_dep_targets: "finite (dep_targets g)"
  by (simp add: dep_targets_def)

lemma resolve_dom_visited:
  "resolve_resolve_loop_dom (Inl (g, node, st)) \<Longrightarrow>
     fst (resolve g node st) \<Longrightarrow> visited st \<subseteq> visited (snd (resolve g node st))"
  "resolve_resolve_loop_dom (Inr (g, ds, st)) \<Longrightarrow>
     fst (resolve_loop g ds st) \<Longrightarrow> visited st \<subseteq> visited (snd (resolve_loop g ds st))"
proof (induction g node st and g ds st rule: resolve_resolve_loop.pinduct)
  case (1 g node st)
  note eq = resolve.psimps [OF "1.hyps"(1)]
  show ?case
  proof (cases "node \<in> resolved st \<or> node \<in> unresolved st")
    case True
    then show ?thesis by (auto simp: eq)
  next
    case False
    let ?st1 = "st\<lparr>unresolved := insert node (unresolved st)\<rparr>"
    obtain ok st' where r: "resolve_loop g (deps g node) ?st1 = (ok, st')"
      by (cases "resolve_loop g (deps g node) ?st1") blast
    with False "1.prems" have ok: "ok"
      by (simp add: eq split: if_splits)
    with r False "1.IH" have "visited ?st1 \<subseteq> visited st'"
      by simp
    moreover have "visited st \<subseteq> visited ?st1"
      by (auto simp: visited_def)
    moreover from r ok False have "snd (resolve g node st) =
        st'\<lparr>resolved := insert node (resolved st'), unresolved := unresolved st' - {node},
            sorted_nodes := sorted_nodes st' @ [node]\<rparr>"
      by (simp add: eq)
    moreover have "visited st' \<subseteq> visited
        (st'\<lparr>resolved := insert node (resolved st'), unresolved := unresolved st' - {node},
            sorted_nodes := sorted_nodes st' @ [node]\<rparr>)"
      by (auto simp: visited_def)
    ultimately show ?thesis by auto
  qed
next
  case (2 g st)
  then show ?case by (simp add: resolve_loop.psimps)
next
  case (3 g dep ds st)
  note eq = resolve_loop.psimps(2) [OF "3.hyps"(1)]
  obtain ok st' where r: "resolve g dep st = (ok, st')"
    by (cases "resolve g dep st") blast
  with "3.prems" have ok: "ok" and f: "fst (resolve_loop g ds st')"
    by (simp_all add: eq split: if_splits)
  from r ok "3.IH"(1) have "visited st \<subseteq> visited st'"
    by simp
  moreover from r ok f "3.IH"(2) have "visited st' \<subseteq> visited (snd (resolve_loop g ds st'))"
    by simp
  moreover from r ok have "resolve_loop g (dep # ds) st = resolve_loop g ds st'"
    by (simp add: eq)
  ultimately show ?case by auto
qed

termination resolve
proof (relation "inv_image (less_than <*lex*> less_than) resolve_measure")
  show "wf (inv_image (less_than <*lex*> less_than) resolve_measure)"
    by auto
next
  fix g node and st :: resolve_state
  assume a: "node \<notin> resolved st" "node \<notin> unresolved st"
  let ?st1 = "st\<lparr>unresolved := insert node (unresolved st)\<rparr>"
  have "(dep_targets g \<union> set (deps g node)) - visited ?st1
      \<subset> insert node (dep_targets g) - visited st"
    using a deps_subset_targets [of g node] by (auto simp: visited_def)
  then have "card ((dep_targets g \<union> set (deps g node)) - visited ?st1)
      < card (insert node (dep_targets g) - visited st)"
    by (intro psubset_card_mono) (auto simp: finite_dep_targets)
  then show "(Inr (g, deps g node, ?st1), Inl (g, node, st))
      \<in> inv_image (less_than <*lex*> less_than) resolve_measure"
    by (simp add: resolve_measure_def)
next
  fix g dep ds and st :: resolve_state
  have "card (insert dep (dep_targets g) - visited st)
      \<le> card ((dep_targets g \<union> set (dep # ds)) - visited st)"
    by (intro card_mono) (auto simp: finite_dep_targets)
  then show "(Inl (g, dep, st), Inr (g, dep # ds, st))
      \<in> inv_image (less_than <*lex*> less_than) resolve_measure"
    by (simp add: resolve_measure_def) arith
next
  fix g dep ds and st :: resolve_state and ok st'
  assume res: "(ok, st') = resolve g dep st" "ok"
    and dom: "resolve_resolve_loop_dom (Inl (g, dep, st))"
  from res have "fst (resolve g dep st)" and st': "st' = snd (resolve g dep st)"
    by (metis fst_conv, metis snd_conv)
  with resolve_dom_visited(1) [OF dom] have "visited st \<subseteq> visited st'"
    by simp
  then have "card ((dep_targets g \<union> set ds) - visited st')
      \<le> card ((dep_targets g \<union> set (dep # ds)) - visited st)"
    by (intro card_mono) (auto simp: finite_dep_targets)
  then show "(Inr (g, ds, st'), Inr (g, dep # ds, st))
      \<in> inv_image (less_than <*lex*> less_than) resolve_measure"
    by (simp add: resolve_measure_def) arith
qed

declare resolve.simps [simp del]

text \<open>The loop of \<open>resolve_and_sort\<close> over the keys of \<open>all_cells\<close>.\<close>

fun resolve_all :: "graph \<Rightarrow> cell_id list \<Rightarrow> resolve_state \<Rightarrow> error + cell_id list" where
  "resolve_all g [] st = Inr (sorted_nodes st)"
| "resolve_all g (node # nodes) st =
     (case resolve g node st of
        (ok, st') \<Rightarrow> if ok then resolve_all g nodes st' else Inl (ValueError node))"

definition resolve_and_sort :: "graph \<Rightarrow> cells \<Rightarrow> error + cell_id list" where
  "resolve_and_sort g cells =
     resolve_all g (keys cells) \<lparr>resolved = {}, unresolved = {}, sorted_nodes = []\<rparr>"

section \<open>The Cycle Breaker\<close>

text \<open>
  \<open>detect_and_break_cycles\<close> colours the vertices in a depth-first search and collects the
  edges to remove in the set \<open>cycle_edges\<close>; the inner function \<open>dfs\<close> updates the colours,
  that set and (by reading \<open>graph[vertex]\<close>) the keys of the graph. \<open>dfs_loop\<close> is the loop of
  \<open>dfs\<close> over the neighbours of its vertex: its result is \<open>True\<close> when the loop was left by
  \<open>return True\<close>, and then the vertex stays gray. The three colours are the three distinct
  attributes of the \<open>namedtuple\<close> class of the code; a vertex without a colour is white
  (\<open>states\<close> is a \<open>defaultdict\<close>). The argument \<open>path\<close> is passed on and never read. As for
  \<open>resolve\<close>, the depth of the recursion is taken as unbounded.
\<close>

datatype colour = WHITE | GRAY | BLACK

record dfs_state =
  states :: "cell_id \<Rightarrow> colour"
  cycle_edges :: "(cell_id \<times> cell_id) list"
  graph :: graph

function dfs :: "cell_id \<Rightarrow> cell_id list \<Rightarrow> dfs_state \<Rightarrow> bool \<times> dfs_state"
  and dfs_loop :: "cell_id \<Rightarrow> cell_id list \<Rightarrow> cell_id list \<Rightarrow> dfs_state \<Rightarrow> bool \<times> dfs_state"
where
  "dfs vertex path st =
     (case dfs_loop vertex path (deps (graph st) vertex)
             (st\<lparr>states := (states st)(vertex := GRAY), graph := touch (graph st) vertex\<rparr>) of
        (found, st') \<Rightarrow>
          if found then (True, st')
          else (False, st'\<lparr>states := (states st')(vertex := BLACK)\<rparr>))"
| "dfs_loop vertex path [] st = (False, st)"
| "dfs_loop vertex path (neighbor # ns) st =
     (if states st neighbor = WHITE then
        (case dfs neighbor (path @ [vertex]) st of
           (found, st') \<Rightarrow>
             if found
             then dfs_loop vertex path ns
                    (st'\<lparr>cycle_edges := set_add (vertex, neighbor) (cycle_edges st')\<rparr>)
             else dfs_loop vertex path ns st')
      else if states st neighbor = GRAY then
        (True, st\<lparr>cycle_edges := set_add (vertex, neighbor) (cycle_edges st)\<rparr>)
      else dfs_loop vertex path ns st)"
  by pat_completeness auto

text \<open>What gets smaller in each call: the white vertices, then the rest of the loop.\<close>

definition white :: "dfs_state \<Rightarrow> cell_id set" where
  "white st = {v. states st v = WHITE}"

definition dfs_measure ::
    "cell_id \<times> cell_id list \<times> dfs_state + cell_id \<times> cell_id list \<times> cell_id list \<times> dfs_state
      \<Rightarrow> nat \<times> nat" where
  "dfs_measure x =
     (case x of
        Inl (vertex, path, st) \<Rightarrow>
          (card ((dep_targets (graph st) \<inter> white st) - {vertex}), Suc (length (deps (graph st) vertex)))
      | Inr (vertex, path, ns, st) \<Rightarrow>
          (card ((dep_targets (graph st) \<union> set ns) \<inter> white st), length ns))"

lemma deps_touch: "deps (touch g v) = deps g"
proof
  fix n
  show "deps (touch g v) n = deps g n"
  proof (cases "v \<in> set (keys g)")
    case True
    then show ?thesis by (simp add: touch_def)
  next
    case False
    then have "map_of g v = None"
      by (simp add: keys_def map_of_eq_None_iff)
    then show ?thesis
      by (cases "map_of g n") (auto simp: touch_def deps_def map_add_def)
  qed
qed

lemma dep_targets_touch: "dep_targets (touch g v) = dep_targets g"
  by (auto simp: touch_def dep_targets_def)

lemma white_cycle_edges_update: "white (st\<lparr>cycle_edges := es\<rparr>) = white st"
  by (simp add: white_def)

lemma dfs_dom_white:
  "dfs_dfs_loop_dom (Inl (vertex, path, st)) \<Longrightarrow>
     dep_targets (graph (snd (dfs vertex path st))) = dep_targets (graph st) \<and>
     white (snd (dfs vertex path st)) \<subseteq> white st"
  "dfs_dfs_loop_dom (Inr (vertex, path, ns, st)) \<Longrightarrow>
     dep_targets (graph (snd (dfs_loop vertex path ns st))) = dep_targets (graph st) \<and>
     white (snd (dfs_loop vertex path ns st)) \<subseteq> white st"
proof (induction vertex path st and vertex path ns st rule: dfs_dfs_loop.pinduct)
  case (1 vertex path st)
  note eq = dfs.psimps [OF "1.hyps"(1)]
  let ?st1 = "st\<lparr>states := (states st)(vertex := GRAY), graph := touch (graph st) vertex\<rparr>"
  obtain found st' where r: "dfs_loop vertex path (deps (graph st) vertex) ?st1 = (found, st')"
    by (cases "dfs_loop vertex path (deps (graph st) vertex) ?st1") blast
  from "1.IH" r have "dep_targets (graph st') = dep_targets (graph ?st1)"
    and "white st' \<subseteq> white ?st1"
    by simp_all
  moreover have "dep_targets (graph ?st1) = dep_targets (graph st)"
    by (simp add: dep_targets_touch)
  moreover have "white ?st1 \<subseteq> white st"
    by (auto simp: white_def)
  moreover have "white (st'\<lparr>states := (states st')(vertex := BLACK)\<rparr>) \<subseteq> white st'"
    by (auto simp: white_def)
  ultimately show ?case
    using r by (cases found) (auto simp: eq)
next
  case (2 vertex path st)
  then show ?case by (simp add: dfs_loop.psimps)
next
  case (3 vertex path neighbor ns st)
  note eq = dfs_loop.psimps(2) [OF "3.hyps"(1)]
  show ?case
  proof (cases "states st neighbor")
    case WHITE
    obtain found st' where r: "dfs neighbor (path @ [vertex]) st = (found, st')"
      by (cases "dfs neighbor (path @ [vertex]) st") blast
    from "3.IH"(1) WHITE r have a: "dep_targets (graph st') = dep_targets (graph st)"
      "white st' \<subseteq> white st"
      by simp_all
    show ?thesis
    proof (cases found)
      case True
      let ?st2 = "st'\<lparr>cycle_edges := set_add (vertex, neighbor) (cycle_edges st')\<rparr>"
      from "3.IH"(2) WHITE r True
      have "dep_targets (graph (snd (dfs_loop vertex path ns ?st2))) = dep_targets (graph ?st2)"
        "white (snd (dfs_loop vertex path ns ?st2)) \<subseteq> white ?st2"
        by simp_all
      with a WHITE r True show ?thesis
        by (simp add: eq white_cycle_edges_update)
    next
      case False
      from "3.IH"(3) WHITE r False
      have "dep_targets (graph (snd (dfs_loop vertex path ns st'))) = dep_targets (graph st')"
        "white (snd (dfs_loop vertex path ns st')) \<subseteq> white st'"
        by simp_all
      with a WHITE r False show ?thesis
        by (simp add: eq)
    qed
  next
    case GRAY
    then show ?thesis by (simp add: eq white_cycle_edges_update)
  next
    case BLACK
    with "3.IH"(4) show ?thesis by (simp add: eq)
  qed
qed

termination dfs
proof (relation "inv_image (less_than <*lex*> less_than) dfs_measure")
  show "wf (inv_image (less_than <*lex*> less_than) dfs_measure)"
    by auto
next
  fix vertex path and st :: dfs_state
  let ?st1 = "st\<lparr>states := (states st)(vertex := GRAY), graph := touch (graph st) vertex\<rparr>"
  have "(dep_targets (graph ?st1) \<union> set (deps (graph st) vertex)) \<inter> white ?st1
      = (dep_targets (graph st) \<inter> white st) - {vertex}"
    using deps_subset_targets [of "graph st" vertex]
    by (auto simp: dep_targets_touch white_def)
  then show "(Inr (vertex, path, deps (graph st) vertex, ?st1), Inl (vertex, path, st))
      \<in> inv_image (less_than <*lex*> less_than) dfs_measure"
    by (simp add: dfs_measure_def)
next
  fix vertex path neighbor ns and st :: dfs_state
  assume w: "states st neighbor = WHITE"
  have "(dep_targets (graph st) \<inter> white st) - {neighbor}
      \<subset> (dep_targets (graph st) \<union> set (neighbor # ns)) \<inter> white st"
    using w by (auto simp: white_def)
  then have "card ((dep_targets (graph st) \<inter> white st) - {neighbor})
      < card ((dep_targets (graph st) \<union> set (neighbor # ns)) \<inter> white st)"
    by (intro psubset_card_mono) (auto simp: finite_dep_targets)
  then show "(Inl (neighbor, path @ [vertex], st), Inr (vertex, path, neighbor # ns, st))
      \<in> inv_image (less_than <*lex*> less_than) dfs_measure"
    by (simp add: dfs_measure_def)
next
  fix vertex path neighbor ns and st :: dfs_state and found st'
  assume w: "states st neighbor = WHITE"
    and r: "(found, st') = dfs neighbor (path @ [vertex]) st"
    and f: "found"
    and dom: "dfs_dfs_loop_dom (Inl (neighbor, path @ [vertex], st))"
  from r have st': "st' = snd (dfs neighbor (path @ [vertex]) st)"
    by (metis snd_conv)
  from dfs_dom_white(1) [OF dom] st'
  have "dep_targets (graph st') = dep_targets (graph st)" "white st' \<subseteq> white st"
    by simp_all
  then have "card ((dep_targets (graph st') \<union> set ns) \<inter> white st')
      \<le> card ((dep_targets (graph st) \<union> set (neighbor # ns)) \<inter> white st)"
    by (intro card_mono) (auto simp: finite_dep_targets)
  then show "(Inr (vertex, path, ns,
        st'\<lparr>cycle_edges := set_add (vertex, neighbor) (cycle_edges st')\<rparr>),
      Inr (vertex, path, neighbor # ns, st))
      \<in> inv_image (less_than <*lex*> less_than) dfs_measure"
    by (simp add: dfs_measure_def white_cycle_edges_update) arith
next
  fix vertex path neighbor ns and st :: dfs_state and found st'
  assume w: "states st neighbor = WHITE"
    and r: "(found, st') = dfs neighbor (path @ [vertex]) st"
    and f: "\<not> found"
    and dom: "dfs_dfs_loop_dom (Inl (neighbor, path @ [vertex], st))"
  from r have st': "st' = snd (dfs neighbor (path @ [vertex]) st)"
    by (metis snd_conv)
  from dfs_dom_white(1) [OF dom] st'
  have "dep_targets (graph st') = dep_targets (graph st)" "white st' \<subseteq> white st"
    by simp_all
  then have "card ((dep_targets (graph st') \<union> set ns) \<inter> white st')
      \<le> card ((dep_targets (graph st) \<union> set (neighbor # ns)) \<inter> white st)"
    by (intro card_mono) (auto simp: finite_dep_targets)
  then show "(Inr (vertex, path, ns, st'), Inr (vertex, path, neighbor # ns, st))
      \<in> inv_image (less_than <*lex*> less_than) dfs_measure"
    by (simp add: dfs_measure_def) arith
next
  fix vertex path neighbor ns and st :: dfs_state
  have "card ((dep_targets (graph st) \<union> set ns) \<inter> white st)
      \<le> card ((dep_targets (graph st) \<union> set (neighbor # ns)) \<inter> white st)"
    by (intro card_mono) (auto simp: finite_dep_targets)
  then show "(Inr (vertex, path, ns, st), Inr (vertex, path, neighbor # ns, st))
      \<in> inv_image (less_than <*lex*> less_than) dfs_measure"
    by (simp add: dfs_measure_def) arith
qed

declare dfs.simps [simp del]

text \<open>The loop over \<open>list(graph.keys())\<close>, the removal of the collected edges
  (\<open>set.remove\<close> raises \<open>KeyError\<close> for a missing element), and the whole function.\<close>

fun dfs_all :: "cell_id list \<Rightarrow> dfs_state \<Rightarrow> dfs_state" where
  "dfs_all [] st = st"
| "dfs_all (vertex # vs) st =
     (if states st vertex = WHITE then dfs_all vs (snd (dfs vertex [] st))
      else dfs_all vs st)"

fun remove_edges :: "(cell_id \<times> cell_id) list \<Rightarrow> graph \<Rightarrow> error + graph" where
  "remove_edges [] g = Inr g"
| "remove_edges (edge # es) g =
     (if snd edge \<in> set (deps g (fst edge))
      then remove_edges es (dict_set g (fst edge) (removeAll (snd edge) (deps g (fst edge))))
      else Inl (KeyError (snd edge)))"

definition detect_and_break_cycles :: "graph \<Rightarrow> error + graph" where
  "detect_and_break_cycles g =
     (let st = dfs_all (keys g) \<lparr>states = (\<lambda>v. WHITE), cycle_edges = [], graph = g\<rparr>
      in remove_edges (cycle_edges st) (graph st))"

section \<open>The pipeline\<close>

text \<open>\<open>convert_excel_to_js\<close> on the sheet that the workbook reader returns: extraction, the
  Cycle Breaker, the sequencer, and one line for each sorted cell that has a declaration.
  \<open>break_and_sort\<close> is its middle part, the two calls on the graph.\<close>

definition break_and_sort :: "graph \<Rightarrow> cells \<Rightarrow> error + cell_id list" where
  "break_and_sort g cells =
     (case detect_and_break_cycles g of
        Inl e \<Rightarrow> Inl e
      | Inr g' \<Rightarrow> resolve_and_sort g' cells)"

definition convert_excel_to_js :: "(nat \<Rightarrow> nat \<Rightarrow> error + string) \<Rightarrow> cell_value list list
    \<Rightarrow> error + string \<times> cells" where
  "convert_excel_to_js float_str sheet =
     (case extract_and_convert_all_cells float_str sheet of
        Inl e \<Rightarrow> Inl e
      | Inr (all_cells_js, g, formulas) \<Rightarrow>
          (case break_and_sort g all_cells_js of
             Inl e \<Rightarrow> Inl e
           | Inr sorted_all_cells \<Rightarrow>
               Inr (join [chr 10] (List.map_filter (map_of all_cells_js) sorted_all_cells),
                    formulas)))"

text \<open>\<open>precedes b a xs\<close>: \<open>a\<close> occurs in \<open>xs\<close>, and \<open>b\<close> occurs before the first \<open>a\<close>.\<close>

definition precedes :: "'a \<Rightarrow> 'a \<Rightarrow> 'a list \<Rightarrow> bool" where
  "precedes b a xs = (a \<in> set xs \<and> b \<in> set (takeWhile (\<lambda>x. x \<noteq> a) xs))"

section \<open>The sequencer returns a topological order\<close>

lemma precedes_append: "precedes b a xs \<Longrightarrow> precedes b a (xs @ ys)"
  by (auto simp: precedes_def takeWhile_append)

lemma precedes_snoc: "b \<in> set xs \<Longrightarrow> a \<notin> set xs \<Longrightarrow> precedes b a (xs @ [a])"
  by (auto simp: precedes_def takeWhile_append)

text \<open>The invariant of the three variables of \<open>resolve_and_sort\<close>: the sorted list holds the
  resolved nodes, each once; no node is both resolved and being resolved; and every
  dependency of a resolved node stands before it in the list.\<close>

definition resolve_inv :: "graph \<Rightarrow> resolve_state \<Rightarrow> bool" where
  "resolve_inv g st =
     (set (sorted_nodes st) = resolved st \<and> distinct (sorted_nodes st) \<and>
      resolved st \<inter> unresolved st = {} \<and>
      (\<forall>a \<in> resolved st. \<forall>b \<in> set (deps g a). precedes b a (sorted_nodes st)))"

lemma resolve_sound:
  "resolve_inv g st \<Longrightarrow> fst (resolve g node st) \<Longrightarrow>
     resolve_inv g (snd (resolve g node st)) \<and>
     node \<in> resolved (snd (resolve g node st)) \<and>
     resolved st \<subseteq> resolved (snd (resolve g node st)) \<and>
     resolved (snd (resolve g node st)) \<subseteq> resolved st \<union> insert node (dep_targets g) \<and>
     unresolved (snd (resolve g node st)) = unresolved st"
  "resolve_inv g st \<Longrightarrow> fst (resolve_loop g ds st) \<Longrightarrow>
     resolve_inv g (snd (resolve_loop g ds st)) \<and>
     set ds \<subseteq> resolved (snd (resolve_loop g ds st)) \<and>
     resolved st \<subseteq> resolved (snd (resolve_loop g ds st)) \<and>
     resolved (snd (resolve_loop g ds st)) \<subseteq> resolved st \<union> set ds \<union> dep_targets g \<and>
     unresolved (snd (resolve_loop g ds st)) = unresolved st"
proof (induction g node st and g ds st rule: resolve_resolve_loop.induct)
  case (1 g node st)
  show ?case
  proof (cases "node \<in> resolved st \<or> node \<in> unresolved st")
    case True
    with "1.prems" show ?thesis
      by (auto simp: resolve.simps [of g node st] split: if_splits)
  next
    case False
    let ?st1 = "st\<lparr>unresolved := insert node (unresolved st)\<rparr>"
    obtain ok st' where r: "resolve_loop g (deps g node) ?st1 = (ok, st')"
      by (cases "resolve_loop g (deps g node) ?st1") blast
    let ?st2 = "st'\<lparr>resolved := insert node (resolved st'),
        unresolved := unresolved st' - {node}, sorted_nodes := sorted_nodes st' @ [node]\<rparr>"
    from False r "1.prems"(2) have ok: ok
      by (simp add: resolve.simps [of g node st] split: if_splits)
    with False r have res: "resolve g node st = (True, ?st2)"
      by (simp add: resolve.simps [of g node st])
    from "1.prems"(1) False have inv1: "resolve_inv g ?st1"
      by (auto simp: resolve_inv_def)
    from "1.IH" [OF _ _ inv1] False r ok
    have inv': "resolve_inv g st'" and ds: "set (deps g node) \<subseteq> resolved st'"
      and mono: "resolved st \<subseteq> resolved st'"
      and bound: "resolved st' \<subseteq> resolved st \<union> set (deps g node) \<union> dep_targets g"
      and unres: "unresolved st' = insert node (unresolved st)"
      by simp_all
    from inv' unres have fresh: "node \<notin> resolved st'" "node \<notin> set (sorted_nodes st')"
      by (auto simp: resolve_inv_def)
    have "resolve_inv g ?st2"
      unfolding resolve_inv_def
    proof (intro conjI ballI)
      show "set (sorted_nodes ?st2) = resolved ?st2"
        using inv' by (auto simp: resolve_inv_def)
      show "distinct (sorted_nodes ?st2)"
        using inv' fresh by (auto simp: resolve_inv_def)
      show "resolved ?st2 \<inter> unresolved ?st2 = {}"
        using inv' by (auto simp: resolve_inv_def)
    next
      fix a b
      assume a: "a \<in> resolved ?st2" and b: "b \<in> set (deps g a)"
      show "precedes b a (sorted_nodes ?st2)"
      proof (cases "a = node")
        case True
        with b ds inv' have "b \<in> set (sorted_nodes st')"
          by (auto simp: resolve_inv_def)
        with fresh True show ?thesis
          by (simp add: precedes_snoc)
      next
        case False
        with a have "a \<in> resolved st'" by simp
        with inv' b have "precedes b a (sorted_nodes st')"
          by (auto simp: resolve_inv_def)
        then show ?thesis by (simp add: precedes_append)
      qed
    qed
    moreover have "unresolved ?st2 = unresolved st"
      using unres False by auto
    moreover have "resolved ?st2 \<subseteq> resolved st \<union> insert node (dep_targets g)"
      using bound deps_subset_targets [of g node] by auto
    ultimately show ?thesis
      using res mono by auto
  qed
next
  case (2 g st)
  then show ?case by simp
next
  case (3 g dep ds st)
  obtain ok st' where r: "resolve g dep st = (ok, st')"
    by (cases "resolve g dep st") blast
  with "3.prems"(2) have ok: ok and f: "fst (resolve_loop g ds st')"
    by (simp_all split: if_splits)
  from "3.IH"(1) [OF "3.prems"(1)] r ok
  have a: "resolve_inv g st'" "dep \<in> resolved st'" "resolved st \<subseteq> resolved st'"
    "resolved st' \<subseteq> resolved st \<union> insert dep (dep_targets g)"
    "unresolved st' = unresolved st"
    by simp_all
  from "3.IH"(2) [OF r [symmetric] ok a(1) f]
  have b: "resolve_inv g (snd (resolve_loop g ds st'))"
    "set ds \<subseteq> resolved (snd (resolve_loop g ds st'))"
    "resolved st' \<subseteq> resolved (snd (resolve_loop g ds st'))"
    "resolved (snd (resolve_loop g ds st')) \<subseteq> resolved st' \<union> set ds \<union> dep_targets g"
    "unresolved (snd (resolve_loop g ds st')) = unresolved st'"
    by simp_all
  from r ok have "resolve_loop g (dep # ds) st = resolve_loop g ds st'"
    by simp
  with a b show ?case by auto
qed


lemma resolve_complete:
  "acyclic (edges g) \<Longrightarrow> resolve_inv g st \<Longrightarrow>
     (\<forall>u \<in> unresolved st. (u, node) \<in> (edges g)\<^sup>+) \<Longrightarrow> fst (resolve g node st)"
  "acyclic (edges g) \<Longrightarrow> resolve_inv g st \<Longrightarrow>
     (\<forall>u \<in> unresolved st. \<forall>d \<in> set ds. (u, d) \<in> (edges g)\<^sup>+) \<Longrightarrow>
     fst (resolve_loop g ds st)"
proof (induction g node st and g ds st rule: resolve_resolve_loop.induct)
  case (1 g node st)
  show ?case
  proof (cases "node \<in> resolved st")
    case True
    then show ?thesis by (simp add: resolve.simps [of g node st])
  next
    case False
    have nu: "node \<notin> unresolved st"
    proof
      assume "node \<in> unresolved st"
      with "1.prems"(3) have "(node, node) \<in> (edges g)\<^sup>+" by blast
      with "1.prems"(1) show False by (simp add: acyclic_def)
    qed
    let ?st1 = "st\<lparr>unresolved := insert node (unresolved st)\<rparr>"
    from "1.prems"(2) False have inv1: "resolve_inv g ?st1"
      by (auto simp: resolve_inv_def)
    have path: "\<forall>u \<in> unresolved ?st1. \<forall>d \<in> set (deps g node). (u, d) \<in> (edges g)\<^sup>+"
    proof (intro ballI)
      fix u d
      assume u: "u \<in> unresolved ?st1" and d: "d \<in> set (deps g node)"
      from d have e: "(node, d) \<in> edges g" by (simp add: edges_def)
      show "(u, d) \<in> (edges g)\<^sup>+"
      proof (cases "u = node")
        case True
        with e show ?thesis by auto
      next
        case False
        with u have "u \<in> unresolved st" by simp
        with "1.prems"(3) have "(u, node) \<in> (edges g)\<^sup>+" by blast
        then show ?thesis using e by (rule trancl_into_trancl)
      qed
    qed
    from "1.IH" [OF False nu "1.prems"(1) inv1 path]
    have f: "fst (resolve_loop g (deps g node) ?st1)" .
    then obtain st' where "resolve_loop g (deps g node) ?st1 = (True, st')"
      by (cases "resolve_loop g (deps g node) ?st1") auto
    with False nu show ?thesis
      by (simp add: resolve.simps [of g node st])
  qed
next
  case (2 g st)
  show ?case by simp
next
  case (3 g dep ds st)
  from "3.prems"(3) have p: "\<forall>u \<in> unresolved st. (u, dep) \<in> (edges g)\<^sup>+" by simp
  from "3.IH"(1) [OF "3.prems"(1,2) p] have f: "fst (resolve g dep st)" .
  then obtain st' where r: "resolve g dep st = (True, st')"
    by (cases "resolve g dep st") auto
  from resolve_sound(1) [OF "3.prems"(2) f] r
  have inv': "resolve_inv g st'" and u: "unresolved st' = unresolved st"
    by simp_all
  from "3.prems"(3) u
  have p': "\<forall>u \<in> unresolved st'. \<forall>d \<in> set ds. (u, d) \<in> (edges g)\<^sup>+" by simp
  from "3.IH"(2) [OF r [symmetric] _ "3.prems"(1) inv' p']
  have "fst (resolve_loop g ds st')" by simp
  with r show ?case by simp
qed

lemma resolve_all_sound:
  "resolve_inv g st \<Longrightarrow> unresolved st = {} \<Longrightarrow> resolve_all g nodes st = Inr order \<Longrightarrow>
     distinct order \<and> set nodes \<subseteq> set order \<and> resolved st \<subseteq> set order \<and>
     set order \<subseteq> resolved st \<union> set nodes \<union> dep_targets g \<and>
     (\<forall>a \<in> set order. \<forall>b \<in> set (deps g a). precedes b a order)"
proof (induction nodes arbitrary: st)
  case Nil
  then show ?case by (auto simp: resolve_inv_def)
next
  case (Cons node nodes)
  obtain ok st' where r: "resolve g node st = (ok, st')"
    by (cases "resolve g node st") blast
  with Cons.prems(3) have ok: ok and rest: "resolve_all g nodes st' = Inr order"
    by (simp_all split: if_splits)
  from r ok have f: "fst (resolve g node st)" and s: "snd (resolve g node st) = st'"
    by simp_all
  from resolve_sound(1) [OF Cons.prems(1) f] s Cons.prems(2)
  have a: "resolve_inv g st'" "node \<in> resolved st'" "resolved st \<subseteq> resolved st'"
    "resolved st' \<subseteq> resolved st \<union> insert node (dep_targets g)" "unresolved st' = {}"
    by simp_all
  from Cons.IH [OF a(1) a(5) rest] a show ?case by auto
qed

lemma resolve_all_complete:
  "acyclic (edges g) \<Longrightarrow> resolve_inv g st \<Longrightarrow> unresolved st = {} \<Longrightarrow>
     \<exists>order. resolve_all g nodes st = Inr order"
proof (induction nodes arbitrary: st)
  case Nil
  then show ?case by simp
next
  case (Cons node nodes)
  from resolve_complete(1) [OF Cons.prems(1,2)] Cons.prems(3)
  have f: "fst (resolve g node st)" by simp
  then obtain st' where r: "resolve g node st = (True, st')"
    by (cases "resolve g node st") auto
  from resolve_sound(1) [OF Cons.prems(2) f] r Cons.prems(3)
  have "resolve_inv g st'" "unresolved st' = {}" by simp_all
  from Cons.IH [OF Cons.prems(1) this] r show ?case by simp
qed

lemma resolve_all_error:
  "resolve_all g nodes st = Inl e \<Longrightarrow> \<exists>n. e = ValueError n"
proof (induction nodes arbitrary: st)
  case Nil
  then show ?case by simp
next
  case (Cons node nodes)
  then show ?case
    by (cases "resolve g node st") (auto split: if_splits)
qed

lemma resolve_inv_init:
  "resolve_inv g \<lparr>resolved = {}, unresolved = {}, sorted_nodes = []\<rparr>"
  by (simp add: resolve_inv_def)

lemma resolve_and_sort_sound:
  assumes "resolve_and_sort g cells = Inr order"
  shows "distinct order" and "set (keys cells) \<subseteq> set order"
    and "set order \<subseteq> set (keys cells) \<union> dep_targets g"
    and "\<And>a b. a \<in> set order \<Longrightarrow> b \<in> set (deps g a) \<Longrightarrow> precedes b a order"
  using resolve_all_sound [OF resolve_inv_init, of g "keys cells" order] assms
  by (auto simp: resolve_and_sort_def)

lemma resolve_and_sort_complete:
  "acyclic (edges g) \<Longrightarrow> \<exists>order. resolve_and_sort g cells = Inr order"
  using resolve_all_complete [OF _ resolve_inv_init, of g "keys cells"]
  by (simp add: resolve_and_sort_def)

lemma resolve_and_sort_error:
  assumes "resolve_and_sort g cells = Inl e"
  shows "\<exists>n. e = ValueError n" and "\<not> acyclic (edges g)"
proof -
  from assms show "\<exists>n. e = ValueError n"
    by (auto simp: resolve_and_sort_def dest: resolve_all_error)
  show "\<not> acyclic (edges g)"
  proof
    assume "acyclic (edges g)"
    then obtain order where "resolve_and_sort g cells = Inr order"
      using resolve_and_sort_complete by blast
    with assms show False by simp
  qed
qed

lemma edge_source_is_key:
  assumes "(a, b) \<in> edges g"
  shows "a \<in> set (keys g)"
proof (cases "map_of g a")
  case None
  with assms show ?thesis by (simp add: edges_def deps_def)
next
  case (Some ds)
  then have "(a, ds) \<in> set g" by (rule map_of_SomeD)
  then show ?thesis by (force simp: keys_def)
qed

text \<open>
  C1. For every acyclic dependency graph and every cell mapping that holds all vertices of
  the graph (its keys and the cells they reference), \<open>resolve_and_sort\<close> returns an order
  that consists of the cells of the mapping, each exactly once, and in which, for every
  edge from \<open>a\<close> to \<open>b\<close> (\<open>a\<close> references \<open>b\<close>), \<open>b\<close> stands before \<open>a\<close>.
\<close>

theorem resolve_and_sort_topological:
  assumes "acyclic (edges g)" and "set (keys g) \<union> dep_targets g \<subseteq> set (keys cells)"
  shows "\<exists>order. resolve_and_sort g cells = Inr order \<and> distinct order \<and>
           set order = set (keys cells) \<and> (\<forall>(a, b) \<in> edges g. precedes b a order)"
proof -
  from assms(1) obtain order where r: "resolve_and_sort g cells = Inr order"
    using resolve_and_sort_complete by blast
  note s = resolve_and_sort_sound [OF r]
  from s(2,3) assms(2) have "set order = set (keys cells)" by auto
  moreover have "\<forall>(a, b) \<in> edges g. precedes b a order"
  proof (clarify)
    fix a b
    assume e: "(a, b) \<in> edges g"
    then have "a \<in> set (keys g)" by (rule edge_source_is_key)
    with assms(2) s(2) have "a \<in> set order" by auto
    moreover from e have "b \<in> set (deps g a)" by (simp add: edges_def)
    ultimately show "precedes b a order" by (rule s(4))
  qed
  ultimately show ?thesis using r s(1) by blast
qed

theorem resolve_and_sort_topological_witness:
  "acyclic (edges [(''C1'', [''A1'', ''B1''])]) \<and>
   set (keys [(''C1'', [''A1'', ''B1''])]) \<union> dep_targets [(''C1'', [''A1'', ''B1''])]
     \<subseteq> set (keys [(''A1'', ''var A1 = 5;''), (''B1'', ''var B1 = 10;''),
                     (''C1'', ''var C1 = A1+B1;'')]) \<and>
   (\<exists>order. resolve_and_sort [(''C1'', [''A1'', ''B1''])]
        [(''A1'', ''var A1 = 5;''), (''B1'', ''var B1 = 10;''), (''C1'', ''var C1 = A1+B1;'')]
        = Inr order \<and>
      distinct order \<and> precedes ''A1'' ''C1'' order \<and> precedes ''B1'' ''C1'' order)"
proof -
  let ?g = "[(''C1'', [''A1'', ''B1''])]"
  let ?cells = "[(''A1'', ''var A1 = 5;''), (''B1'', ''var B1 = 10;''),
      (''C1'', ''var C1 = A1+B1;'')]"
  have ac: "acyclic (edges ?g)"
    by (rule acyclicI_order [where f = "\<lambda>s. if s = ''C1'' then 1 else (0::nat)"])
      (auto simp: edges_def deps_def split: if_splits)
  have cl: "set (keys ?g) \<union> dep_targets ?g \<subseteq> set (keys ?cells)"
    by (simp add: keys_def dep_targets_def)
  have e: "(''C1'', ''A1'') \<in> edges ?g" "(''C1'', ''B1'') \<in> edges ?g"
    by (simp_all add: edges_def deps_def)
  from resolve_and_sort_topological [OF ac cl] e ac cl show ?thesis
    by blast
qed

section \<open>The Cycle Breaker only removes edges\<close>

lemma map_of_dict_set: "map_of (dict_set d k v) = (map_of d)(k \<mapsto> v)"
  by (induction d) (auto simp: fun_eq_iff)

lemma deps_dict_set: "deps (dict_set g k ds) = (deps g)(k := ds)"
  by (auto simp: deps_def map_of_dict_set fun_eq_iff)

lemma set_set_add: "set (set_add x xs) = insert x (set xs)"
  by (auto simp: set_add_def)

lemma distinct_set_add: "distinct xs \<Longrightarrow> distinct (set_add x xs)"
  by (simp add: set_add_def)

text \<open>What a call of \<open>dfs\<close> keeps: the edges of the graph; and what it does to
  \<open>cycle_edges\<close>: it only adds, and only edges of the graph, each once.\<close>

definition dfs_keeps :: "dfs_state \<Rightarrow> dfs_state \<Rightarrow> bool" where
  "dfs_keeps st st' =
     (deps (graph st') = deps (graph st) \<and>
      set (cycle_edges st) \<subseteq> set (cycle_edges st') \<and>
      set (cycle_edges st') \<subseteq> set (cycle_edges st) \<union> edges (graph st) \<and>
      (distinct (cycle_edges st) \<longrightarrow> distinct (cycle_edges st')))"

lemma dfs_keeps_refl: "dfs_keeps st st"
  by (simp add: dfs_keeps_def)

lemma dfs_keeps_trans: "dfs_keeps st st' \<Longrightarrow> dfs_keeps st' st'' \<Longrightarrow> dfs_keeps st st''"
  by (auto simp: dfs_keeps_def edges_def)

lemma dfs_keeps_colour:
  "dfs_keeps st (st\<lparr>states := c\<rparr>)"
  by (simp add: dfs_keeps_def)

lemma dfs_keeps_enter:
  "dfs_keeps st (st\<lparr>states := c, graph := touch (graph st) v\<rparr>)"
  by (simp add: dfs_keeps_def deps_touch)

lemma dfs_keeps_add:
  "n \<in> set (deps (graph st) v) \<Longrightarrow>
     dfs_keeps st (st\<lparr>cycle_edges := set_add (v, n) (cycle_edges st)\<rparr>)"
  by (auto simp: dfs_keeps_def set_set_add distinct_set_add edges_def)

lemma dfs_keeps_deps: "dfs_keeps st st' \<Longrightarrow> deps (graph st') = deps (graph st)"
  by (simp add: dfs_keeps_def)

lemma dfs_keeps_dfs:
  "dfs_keeps st (snd (dfs vertex path st))"
  "set ns \<subseteq> set (deps (graph st) vertex) \<Longrightarrow> dfs_keeps st (snd (dfs_loop vertex path ns st))"
proof (induction vertex path st and vertex path ns st rule: dfs_dfs_loop.induct)
  case (1 vertex path st)
  let ?st1 = "st\<lparr>states := (states st)(vertex := GRAY), graph := touch (graph st) vertex\<rparr>"
  obtain found st' where r: "dfs_loop vertex path (deps (graph st) vertex) ?st1 = (found, st')"
    by (cases "dfs_loop vertex path (deps (graph st) vertex) ?st1") blast
  have "dfs_keeps st ?st1" by (rule dfs_keeps_enter)
  moreover from "1.IH" r have "dfs_keeps ?st1 st'"
    by (simp add: deps_touch)
  ultimately have k: "dfs_keeps st st'" by (rule dfs_keeps_trans)
  have "dfs_keeps st' (st'\<lparr>states := (states st')(vertex := BLACK)\<rparr>)"
    by (rule dfs_keeps_colour)
  with k have "dfs_keeps st (st'\<lparr>states := (states st')(vertex := BLACK)\<rparr>)"
    by (rule dfs_keeps_trans)
  with k r show ?case
    by (cases found) (simp_all add: dfs.simps [of vertex path st])
next
  case (2 vertex path st)
  show ?case by (simp add: dfs_keeps_refl)
next
  case (3 vertex path neighbor ns st)
  from "3.prems" have n: "neighbor \<in> set (deps (graph st) vertex)"
    and ns: "set ns \<subseteq> set (deps (graph st) vertex)"
    by simp_all
  show ?case
  proof (cases "states st neighbor")
    case WHITE
    obtain found st' where r: "dfs neighbor (path @ [vertex]) st = (found, st')"
      by (cases "dfs neighbor (path @ [vertex]) st") blast
    from "3.IH"(1) WHITE r have k: "dfs_keeps st st'" by simp
    then have d: "deps (graph st') = deps (graph st)" by (rule dfs_keeps_deps)
    show ?thesis
    proof (cases found)
      case True
      let ?st2 = "st'\<lparr>cycle_edges := set_add (vertex, neighbor) (cycle_edges st')\<rparr>"
      from n d have "dfs_keeps st' ?st2" by (simp add: dfs_keeps_add)
      with k have k2: "dfs_keeps st ?st2" by (rule dfs_keeps_trans)
      from "3.IH"(2) [OF WHITE r [symmetric] True] ns d
      have "dfs_keeps ?st2 (snd (dfs_loop vertex path ns ?st2))" by simp
      with k2 have "dfs_keeps st (snd (dfs_loop vertex path ns ?st2))" by (rule dfs_keeps_trans)
      with WHITE r True show ?thesis by simp
    next
      case False
      from "3.IH"(3) [OF WHITE r [symmetric] False] ns d
      have "dfs_keeps st' (snd (dfs_loop vertex path ns st'))" by simp
      with k have "dfs_keeps st (snd (dfs_loop vertex path ns st'))" by (rule dfs_keeps_trans)
      with WHITE r False show ?thesis by simp
    qed
  next
    case GRAY
    with n show ?thesis by (simp add: dfs_keeps_add)
  next
    case BLACK
    with "3.IH"(4) ns show ?thesis by simp
  qed
qed

lemma dfs_keeps_dfs_all: "dfs_keeps st (dfs_all vs st)"
proof (induction vs arbitrary: st)
  case Nil
  show ?case by (simp add: dfs_keeps_refl)
next
  case (Cons v vs)
  show ?case
  proof (cases "states st v = WHITE")
    case True
    have "dfs_keeps st (snd (dfs v [] st))" by (rule dfs_keeps_dfs(1))
    then have "dfs_keeps st (dfs_all vs (snd (dfs v [] st)))"
      using Cons.IH by (rule dfs_keeps_trans)
    with True show ?thesis by simp
  next
    case False
    with Cons.IH show ?thesis by simp
  qed
qed

lemma remove_edges_ok:
  "distinct es \<Longrightarrow> set es \<subseteq> edges g \<Longrightarrow>
     \<exists>g'. remove_edges es g = Inr g' \<and> edges g' = edges g - set es"
proof (induction es arbitrary: g)
  case Nil
  then show ?case by simp
next
  case (Cons e es)
  obtain u v where e: "e = (u, v)" by (cases e)
  let ?g1 = "dict_set g u (removeAll v (deps g u))"
  from Cons.prems e have in_g: "v \<in> set (deps g u)"
    by (simp add: edges_def)
  have e1: "edges ?g1 = edges g - {(u, v)}"
    by (auto simp: edges_def deps_dict_set split: if_splits)
  with Cons.prems e have "set es \<subseteq> edges ?g1" by auto
  with Cons.IH [of ?g1] Cons.prems obtain g' where
    "remove_edges es ?g1 = Inr g'" "edges g' = edges ?g1 - set es"
    by auto
  with e e1 in_g show ?case by auto
qed

lemma detect_and_break_cycles_ok:
  "\<exists>g'. detect_and_break_cycles g = Inr g' \<and>
     edges g' = edges g -
       set (cycle_edges (dfs_all (keys g) \<lparr>states = (\<lambda>v. WHITE), cycle_edges = [], graph = g\<rparr>))"
proof -
  let ?init = "\<lparr>states = (\<lambda>v. WHITE), cycle_edges = [], graph = g\<rparr>"
  let ?fin = "dfs_all (keys g) ?init"
  have k: "dfs_keeps ?init ?fin" by (rule dfs_keeps_dfs_all)
  then have e: "edges (graph ?fin) = edges g"
    by (simp add: dfs_keeps_def edges_def)
  from k have "distinct (cycle_edges ?fin)" "set (cycle_edges ?fin) \<subseteq> edges (graph ?fin)"
    using e by (auto simp: dfs_keeps_def)
  from remove_edges_ok [OF this] e show ?thesis
    by (simp add: detect_and_break_cycles_def Let_def)
qed

text \<open>
  C10. For every input graph, \<open>detect_and_break_cycles\<close> returns (the removal of the
  collected edges never raises \<open>KeyError\<close>), and every edge of the graph after the call
  was an edge of the graph before the call.
\<close>

theorem detect_and_break_cycles_only_removes:
  "\<exists>g'. detect_and_break_cycles g = Inr g' \<and> edges g' \<subseteq> edges g"
  using detect_and_break_cycles_ok [of g] by auto

section \<open>The Cycle Breaker on a two-cycle\<close>

text \<open>An induced two-cycle: \<open>a\<close> references \<open>b\<close> only, \<open>b\<close> references \<open>a\<close> only, and no other
  vertex references either of them.\<close>

definition induced_two_cycle :: "graph \<Rightarrow> cell_id \<Rightarrow> cell_id \<Rightarrow> bool" where
  "induced_two_cycle g a b =
     (a \<noteq> b \<and> deps g a = [b] \<and> deps g b = [a] \<and>
      (\<forall>u. u \<noteq> a \<and> u \<noteq> b \<longrightarrow> a \<notin> set (deps g u) \<and> b \<notin> set (deps g u)))"

lemma dfs_outside:
  "induced_two_cycle (graph st) a b \<Longrightarrow> vertex \<noteq> a \<Longrightarrow> vertex \<noteq> b \<Longrightarrow>
     states (snd (dfs vertex path st)) a = states st a \<and>
     states (snd (dfs vertex path st)) b = states st b"
  "induced_two_cycle (graph st) a b \<Longrightarrow> vertex \<noteq> a \<Longrightarrow> vertex \<noteq> b \<Longrightarrow>
     set ns \<subseteq> set (deps (graph st) vertex) \<Longrightarrow>
     states (snd (dfs_loop vertex path ns st)) a = states st a \<and>
     states (snd (dfs_loop vertex path ns st)) b = states st b"
proof (induction vertex path st and vertex path ns st rule: dfs_dfs_loop.induct)
  case (1 vertex path st)
  let ?st1 = "st\<lparr>states := (states st)(vertex := GRAY), graph := touch (graph st) vertex\<rparr>"
  obtain found st' where r: "dfs_loop vertex path (deps (graph st) vertex) ?st1 = (found, st')"
    by (cases "dfs_loop vertex path (deps (graph st) vertex) ?st1") blast
  from "1.prems"(1) have c1: "induced_two_cycle (graph ?st1) a b"
    by (simp add: induced_two_cycle_def deps_touch)
  from "1.IH" [OF c1 "1.prems"(2,3)] r "1.prems"(2,3)
  have "states st' a = states st a \<and> states st' b = states st b"
    by (simp add: deps_touch)
  with r "1.prems"(2,3) show ?case
    by (cases found) (simp_all add: dfs.simps [of vertex path st])
next
  case (2 vertex path st)
  show ?case by simp
next
  case (3 vertex path neighbor ns st)
  from "3.prems"(4) have n: "neighbor \<in> set (deps (graph st) vertex)"
    and ns: "set ns \<subseteq> set (deps (graph st) vertex)"
    by simp_all
  from n "3.prems"(1,2,3) have na: "neighbor \<noteq> a" and nb: "neighbor \<noteq> b"
    by (auto simp: induced_two_cycle_def)
  show ?case
  proof (cases "states st neighbor")
    case WHITE
    obtain found st' where r: "dfs neighbor (path @ [vertex]) st = (found, st')"
      by (cases "dfs neighbor (path @ [vertex]) st") blast
    from "3.IH"(1) [OF WHITE "3.prems"(1) na nb] r
    have s: "states st' a = states st a \<and> states st' b = states st b" by simp
    from dfs_keeps_dfs(1) [of st neighbor "path @ [vertex]"] r
    have d: "deps (graph st') = deps (graph st)" by (simp add: dfs_keeps_def)
    with "3.prems"(1) have c': "induced_two_cycle (graph st') a b"
      by (simp add: induced_two_cycle_def)
    show ?thesis
    proof (cases found)
      case True
      let ?st2 = "st'\<lparr>cycle_edges := set_add (vertex, neighbor) (cycle_edges st')\<rparr>"
      from c' have c2: "induced_two_cycle (graph ?st2) a b" by simp
      from "3.IH"(2) [OF WHITE r [symmetric] True c2 "3.prems"(2,3)] ns d
      have "states (snd (dfs_loop vertex path ns ?st2)) a = states ?st2 a \<and>
          states (snd (dfs_loop vertex path ns ?st2)) b = states ?st2 b"
        by simp
      with s WHITE r True show ?thesis by simp
    next
      case False
      from "3.IH"(3) [OF WHITE r [symmetric] False c' "3.prems"(2,3)] ns d
      have "states (snd (dfs_loop vertex path ns st')) a = states st' a \<and>
          states (snd (dfs_loop vertex path ns st')) b = states st' b"
        by simp
      with s WHITE r False show ?thesis by simp
    qed
  next
    case GRAY
    then show ?thesis by simp
  next
    case BLACK
    with "3.IH"(4) [OF _ _ "3.prems"(1,2,3)] ns show ?thesis by simp
  qed
qed

lemma dfs_two_cycle:
  assumes "a \<noteq> b" "deps (graph st) a = [b]" "deps (graph st) b = [a]"
    and "states st a = WHITE" "states st b = WHITE"
  shows "(a, b) \<in> set (cycle_edges (snd (dfs a path st))) \<and>
         (b, a) \<in> set (cycle_edges (snd (dfs a path st)))"
  using assms
  by (simp add: dfs.simps [of a] dfs.simps [of b] deps_touch set_set_add)

definition pair_broken :: "cell_id \<Rightarrow> cell_id \<Rightarrow> dfs_state \<Rightarrow> bool" where
  "pair_broken a b st = ((a, b) \<in> set (cycle_edges st) \<and> (b, a) \<in> set (cycle_edges st))"

lemma pair_broken_keeps: "dfs_keeps st st' \<Longrightarrow> pair_broken a b st \<Longrightarrow> pair_broken a b st'"
  by (auto simp: dfs_keeps_def pair_broken_def)

lemma induced_two_cycle_keeps:
  "dfs_keeps st st' \<Longrightarrow> induced_two_cycle (graph st) a b \<Longrightarrow> induced_two_cycle (graph st') a b"
  by (simp add: dfs_keeps_def induced_two_cycle_def)

lemma induced_two_cycle_sym: "induced_two_cycle g a b \<Longrightarrow> induced_two_cycle g b a"
  by (auto simp: induced_two_cycle_def)

lemma dfs_all_two_cycle:
  "induced_two_cycle (graph st) a b \<Longrightarrow>
   pair_broken a b st \<or> (states st a = WHITE \<and> states st b = WHITE) \<Longrightarrow>
   a \<in> set vs \<Longrightarrow> pair_broken a b (dfs_all vs st)"
proof (induction vs arbitrary: st)
  case Nil
  then show ?case by simp
next
  case (Cons v vs)
  let ?st' = "snd (dfs v [] st)"
  have k: "dfs_keeps st ?st'" by (rule dfs_keeps_dfs(1))
  show ?case
  proof (cases "pair_broken a b st")
    case True
    have "dfs_keeps st (dfs_all (v # vs) st)" by (rule dfs_keeps_dfs_all)
    then show ?thesis using True by (rule pair_broken_keeps)
  next
    case False
    with Cons.prems(2) have w: "states st a = WHITE" "states st b = WHITE" by simp_all
    from Cons.prems(1) have ab: "a \<noteq> b" "deps (graph st) a = [b]" "deps (graph st) b = [a]"
      by (simp_all add: induced_two_cycle_def)
    show ?thesis
    proof (cases "v = a \<or> v = b")
      case True
      then have "pair_broken a b ?st'"
      proof
        assume "v = a"
        with dfs_two_cycle [OF ab w] show ?thesis by (simp add: pair_broken_def)
      next
        assume "v = b"
        with dfs_two_cycle [OF ab(1) [symmetric] ab(3,2) w(2,1)] show ?thesis
          by (simp add: pair_broken_def)
      qed
      moreover have "dfs_keeps ?st' (dfs_all vs ?st')" by (rule dfs_keeps_dfs_all)
      ultimately have "pair_broken a b (dfs_all vs ?st')" by (rule pair_broken_keeps [rotated])
      with True w show ?thesis by auto
    next
      case False
      then have va: "v \<noteq> a" and vb: "v \<noteq> b" by simp_all
      with Cons.prems(3) have in_vs: "a \<in> set vs" by simp
      show ?thesis
      proof (cases "states st v = WHITE")
        case True
        from dfs_outside(1) [OF Cons.prems(1) va vb] w
        have w': "states ?st' a = WHITE \<and> states ?st' b = WHITE" by simp
        from k Cons.prems(1) have c': "induced_two_cycle (graph ?st') a b"
          by (rule induced_two_cycle_keeps)
        from Cons.IH [OF c' _ in_vs] w' have "pair_broken a b (dfs_all vs ?st')" by simp
        with True show ?thesis by simp
      next
        case False
        from Cons.IH [OF Cons.prems(1,2) in_vs] False show ?thesis by simp
      qed
    qed
  qed
qed

lemma count_list_distinct: "distinct xs \<Longrightarrow> x \<in> set xs \<Longrightarrow> count_list xs x = 1"
  by (induction xs) auto

lemma break_two_cycle:
  assumes "induced_two_cycle g a b"
  shows "\<exists>g'. detect_and_break_cycles g = Inr g' \<and> edges g' \<subseteq> edges g \<and>
           (a, b) \<notin> edges g' \<and> (b, a) \<notin> edges g'"
proof -
  let ?init = "\<lparr>states = (\<lambda>v. WHITE), cycle_edges = [], graph = g\<rparr>"
  from assms have "(a, b) \<in> edges g" by (simp add: induced_two_cycle_def edges_def)
  then have "a \<in> set (keys g)" by (rule edge_source_is_key)
  with dfs_all_two_cycle [of ?init a b "keys g"] assms
  have "pair_broken a b (dfs_all (keys g) ?init)" by simp
  with detect_and_break_cycles_ok [of g] show ?thesis
    by (auto simp: pair_broken_def)
qed

section \<open>The Cycle Breaker followed by the sequencer\<close>

text \<open>What holds on every graph: the Cycle Breaker returns, and the sequencer after it
  raises \<open>ValueError\<close> when the graph it is given has a cycle that it meets, and otherwise
  returns an order of the cells with every dependency of a cell before the cell. Whether
  a cycle is left is the matter of the Cycle Breaker; these facts say nothing about it.\<close>

lemma break_and_sort_cases:
  "\<exists>g'. detect_and_break_cycles g = Inr g' \<and>
     ((\<exists>n. break_and_sort g cells = Inl (ValueError n) \<and> \<not> acyclic (edges g')) \<or>
      (\<exists>order. break_and_sort g cells = Inr order \<and> distinct order \<and>
         set (keys cells) \<subseteq> set order \<and>
         (\<forall>a \<in> set order. \<forall>b \<in> set (deps g' a). precedes b a order)))"
proof -
  obtain g' where b: "detect_and_break_cycles g = Inr g'"
    using detect_and_break_cycles_ok [of g] by blast
  then have eq: "break_and_sort g cells = resolve_and_sort g' cells"
    by (simp add: break_and_sort_def)
  show ?thesis
  proof (cases "resolve_and_sort g' cells")
    case (Inl e)
    from resolve_and_sort_error [OF Inl] Inl eq b show ?thesis by auto
  next
    case (Inr order)
    from resolve_and_sort_sound [OF Inr] Inr eq b show ?thesis by auto
  qed
qed

text \<open>On an induced two-cycle the Cycle Breaker removes both edges, and an order that the
  sequencer returns afterwards holds each of the two cells exactly once.\<close>

lemma two_cycle_broken:
  assumes "induced_two_cycle g a b" and "a \<in> set (keys cells)" and "b \<in> set (keys cells)"
  shows "\<exists>g'. detect_and_break_cycles g = Inr g' \<and> (a, b) \<notin> edges g' \<and> (b, a) \<notin> edges g' \<and>
     ((\<exists>n. resolve_and_sort g' cells = Inl (ValueError n) \<and> \<not> acyclic (edges g')) \<or>
      (\<exists>order. resolve_and_sort g' cells = Inr order \<and>
         count_list order a = 1 \<and> count_list order b = 1))"
proof -
  from break_two_cycle [OF assms(1)] obtain g' where
    b: "detect_and_break_cycles g = Inr g'" "(a, b) \<notin> edges g'" "(b, a) \<notin> edges g'"
    by blast
  show ?thesis
  proof (cases "resolve_and_sort g' cells")
    case (Inl e)
    from resolve_and_sort_error [OF Inl] Inl b show ?thesis by auto
  next
    case (Inr order)
    note s = resolve_and_sort_sound [OF Inr]
    from s(2) assms(2,3) have "a \<in> set order" "b \<in> set order"
      by auto
    then have "count_list order a = 1" "count_list order b = 1"
      by (simp_all only: count_list_distinct [OF s(1)])
    with Inr b show ?thesis by auto
  qed
qed

text \<open>
  C2. The claim: for every input graph, the Cycle Breaker followed by the sequencer of the
  pipeline never raises and yields a total order. The code raises on the graph in which
  \<open>A1\<close> references itself, \<open>B1\<close> references \<open>A1\<close> and \<open>C1\<close>, and \<open>C1\<close> references \<open>A1\<close> and \<open>B1\<close>,
  when each set is iterated with \<open>A1\<close> first: the search from \<open>A1\<close> returns at its edge to
  itself and leaves \<open>A1\<close> gray, the searches from \<open>B1\<close> and from \<open>C1\<close> return at their edge
  to the gray \<open>A1\<close> before they look at their second edge, and \<open>detect_and_break_cycles\<close>,
  which is to break any cycle of the graph, removes the three edges to \<open>A1\<close> and leaves the
  cycle between \<open>B1\<close> and \<open>C1\<close>. \<open>resolve_and_sort\<close> then raises \<open>ValueError\<close>, and so does the
  whole pipeline on the sheet with these three formulas.
\<close>

theorem break_and_sort_raises:
  "detect_and_break_cycles
     [(''A1'', [''A1'']), (''B1'', [''A1'', ''C1'']), (''C1'', [''A1'', ''B1''])]
     = Inr [(''A1'', []), (''B1'', [''C1'']), (''C1'', [''B1''])] \<and>
   break_and_sort
     [(''A1'', [''A1'']), (''B1'', [''A1'', ''C1'']), (''C1'', [''A1'', ''B1''])]
     [(''A1'', ''var A1 = A1;''), (''B1'', ''var B1 = A1+C1;''), (''C1'', ''var C1 = A1+B1;'')]
     = Inl (ValueError ''B1'') \<and>
   convert_excel_to_js decimal_float_str [[PyStr ''=A1'', PyStr ''=A1+C1'', PyStr ''=A1+B1'']]
     = Inl (ValueError ''B1'')"
  by code_simp

text \<open>
  C6. The claim: for every graph that contains an induced two-cycle between \<open>a\<close> and \<open>b\<close>,
  the Cycle Breaker removes at least one of the two edges and the sequencer afterwards
  emits \<open>a\<close> and \<open>b\<close> exactly once. On the graph that holds the three cells of C2 beside the
  two-cycle between \<open>D1\<close> and \<open>E1\<close>, the Cycle Breaker removes both edges of the two-cycle
  but leaves the cycle between \<open>B1\<close> and \<open>C1\<close>, as in C2; the sequencer raises \<open>ValueError\<close>
  and emits neither \<open>D1\<close> nor \<open>E1\<close>.
\<close>

theorem two_cycle_sequencer_raises:
  "induced_two_cycle
     [(''A1'', [''A1'']), (''B1'', [''A1'', ''C1'']), (''C1'', [''A1'', ''B1'']),
      (''D1'', [''E1'']), (''E1'', [''D1''])] ''D1'' ''E1'' \<and>
   detect_and_break_cycles
     [(''A1'', [''A1'']), (''B1'', [''A1'', ''C1'']), (''C1'', [''A1'', ''B1'']),
      (''D1'', [''E1'']), (''E1'', [''D1''])]
     = Inr [(''A1'', []), (''B1'', [''C1'']), (''C1'', [''B1'']), (''D1'', []), (''E1'', [])] \<and>
   break_and_sort
     [(''A1'', [''A1'']), (''B1'', [''A1'', ''C1'']), (''C1'', [''A1'', ''B1'']),
      (''D1'', [''E1'']), (''E1'', [''D1''])]
     [(''A1'', ''var A1 = A1;''), (''B1'', ''var B1 = A1+C1;''), (''C1'', ''var C1 = A1+B1;''),
      (''D1'', ''var D1 = E1;''), (''E1'', ''var E1 = D1;'')]
     = Inl (ValueError ''B1'')"
proof -
  have "induced_two_cycle
     [(''A1'', [''A1'']), (''B1'', [''A1'', ''C1'']), (''C1'', [''A1'', ''B1'']),
      (''D1'', [''E1'']), (''E1'', [''D1''])] ''D1'' ''E1''"
    by (simp add: induced_two_cycle_def deps_def)
  moreover have "detect_and_break_cycles
     [(''A1'', [''A1'']), (''B1'', [''A1'', ''C1'']), (''C1'', [''A1'', ''B1'']),
      (''D1'', [''E1'']), (''E1'', [''D1''])]
     = Inr [(''A1'', []), (''B1'', [''C1'']), (''C1'', [''B1'']), (''D1'', []), (''E1'', [])]"
    by code_simp
  moreover have "break_and_sort
     [(''A1'', [''A1'']), (''B1'', [''A1'', ''C1'']), (''C1'', [''A1'', ''B1'']),
      (''D1'', [''E1'']), (''E1'', [''D1''])]
     [(''A1'', ''var A1 = A1;''), (''B1'', ''var B1 = A1+C1;''), (''C1'', ''var C1 = A1+B1;''),
      (''D1'', ''var D1 = E1;''), (''E1'', ''var E1 = D1;'')]
     = Inl (ValueError ''B1'')"
    by code_simp
  ultimately show ?thesis by simp
qed

theorem two_cycle_sequencer_raises_witness:
  "detect_and_break_cycles
     [(''A1'', [''A1'']), (''B1'', [''A1'', ''C1'']), (''C1'', [''A1'', ''B1'']),
      (''D1'', [''E1'']), (''E1'', [''D1''])]
     = Inr [(''A1'', []), (''B1'', [''C1'']), (''C1'', [''B1'']), (''D1'', []), (''E1'', [])] \<and>
   break_and_sort
     [(''A1'', [''A1'']), (''B1'', [''A1'', ''C1'']), (''C1'', [''A1'', ''B1'']),
      (''D1'', [''E1'']), (''E1'', [''D1''])]
     [(''A1'', ''var A1 = A1;''), (''B1'', ''var B1 = A1+C1;''), (''C1'', ''var C1 = A1+B1;''),
      (''D1'', ''var D1 = E1;''), (''E1'', ''var E1 = D1;'')]
     = Inl (ValueError ''B1'')"
  using two_cycle_sequencer_raises by (rule conjunct2)

section \<open>The vertex set after the extraction\<close>

lemma keys_dict_set: "set (keys (dict_set d k v)) = insert k (set (keys d))"
  by (induction d) (auto simp: keys_def)

lemma keys_add_refs: "set (keys (add_refs cell_ref refs g)) \<subseteq> insert cell_ref (set (keys g))"
proof (induction refs arbitrary: g)
  case Nil
  show ?case by auto
next
  case (Cons r refs)
  from Cons.IH [of "dict_set g cell_ref (set_add (str_replace ''$'' [] r) (deps g cell_ref))"]
  show ?case by (auto simp: keys_dict_set)
qed

text \<open>The invariant of the loop over the cells: the cells with a declaration are the
  defined cells, and only defined cells have dependencies.\<close>

definition extraction_inv :: "extraction \<Rightarrow> bool" where
  "extraction_inv st =
     (set (keys (all_cells st)) = defined_cells st \<and>
      set (keys (dependency_graph st)) \<subseteq> defined_cells st)"

lemma extract_cell_inv:
  "extraction_inv st \<Longrightarrow> extract_cell float_str row_idx col_idx v st = Inr st' \<Longrightarrow>
     extraction_inv st'"
  by (cases v)
    (auto simp: extract_cell_def extraction_inv_def number_text_def keys_dict_set Let_def
      split: sum.splits if_splits dest!: subsetD [OF keys_add_refs])

lemma extract_row_inv:
  "extraction_inv st \<Longrightarrow> extract_row float_str row_idx col_idx vs st = Inr st' \<Longrightarrow>
     extraction_inv st'"
proof (induction vs arbitrary: st col_idx)
  case Nil
  then show ?case by simp
next
  case (Cons v vs)
  then show ?case
    by (auto split: sum.splits dest: extract_cell_inv)
qed

lemma extract_rows_inv:
  "extraction_inv st \<Longrightarrow> extract_rows float_str row_idx rows st = Inr st' \<Longrightarrow>
     extraction_inv st'"
proof (induction rows arbitrary: st row_idx)
  case Nil
  then show ?case by simp
next
  case (Cons row rows)
  then show ?case
    by (auto split: sum.splits dest: extract_row_inv)
qed

lemma keys_init_undefined: "set (keys (init_undefined vs cs)) = set (keys cs) \<union> set vs"
  by (induction vs arbitrary: cs) (auto simp: keys_dict_set)

lemma dep_targets_concat: "dep_targets g = set (concat (map snd g))"
  by (auto simp: dep_targets_def)

text \<open>
  C9. The claim: after the extractor's pass every cell that appears in a value set of the
  dependency graph is also a key of the dependency graph. On the sheet whose only cell is
  the formula \<open>=B1\<close>, the graph has the single key \<open>A1\<close> and \<open>B1\<close> appears in its value set:
  the extractor adds a key to the graph only for a formula cell with a reference.
\<close>

theorem extracted_graph_not_closed:
  "extract_and_convert_all_cells decimal_float_str [[PyStr ''=B1'']] =
     Inr ([(''A1'', ''var A1 = B1;''), (''B1'', ''var B1 = 0;'')],
          [(''A1'', [''B1''])], [(''A1'', ''=B1'')]) \<and>
   ''B1'' \<in> dep_targets [(''A1'', [''B1''])] \<and>
   ''B1'' \<notin> set (keys [(''A1'', [''B1''])])"
proof -
  have "extract_and_convert_all_cells decimal_float_str [[PyStr ''=B1'']] =
     Inr ([(''A1'', ''var A1 = B1;''), (''B1'', ''var B1 = 0;'')],
          [(''A1'', [''B1''])], [(''A1'', ''=B1'')])"
    by code_simp
  then show ?thesis
    by (simp add: dep_targets_def keys_def)
qed

text \<open>
  C9, as amended. After the Cell Extractor has finished its pass over a sheet, every cell
  that appears in a value set of the dependency graph, and every key of the graph, is a
  key of the cell mapping \<open>all_cells\<close> that the extractor returns (the vertex set that the
  sequencer iterates over).
\<close>

theorem extracted_graph_closed_in_cells:
  assumes "extract_and_convert_all_cells float_str sheet = Inr (cells, g, formulas)"
  shows "dep_targets g \<subseteq> set (keys cells) \<and> set (keys g) \<subseteq> set (keys cells)"
proof -
  let ?init = "\<lparr>all_cells = [], dependency_graph = [], original_formulas = [],
      defined_cells = {}\<rparr>"
  from assms obtain st where st: "extract_rows float_str 1 sheet ?init = Inr st"
    and c: "cells = init_undefined (undefined_vars st) (all_cells st)"
    and g: "g = dependency_graph st"
    by (auto simp: extract_and_convert_all_cells_def split: sum.splits)
  have "extraction_inv ?init"
    by (simp add: extraction_inv_def keys_def)
  then have inv: "extraction_inv st"
    using st by (rule extract_rows_inv)
  have "set (keys cells) = set (keys (all_cells st)) \<union> dep_targets g"
    using inv
    by (auto simp: c g keys_init_undefined undefined_vars_def dep_targets_concat
        extraction_inv_def)
  with inv g show ?thesis
    by (auto simp: extraction_inv_def)
qed

theorem extracted_graph_closed_in_cells_witness:
  "extract_and_convert_all_cells decimal_float_str [[PyStr ''=B1'']] =
     Inr ([(''A1'', ''var A1 = B1;''), (''B1'', ''var B1 = 0;'')],
          [(''A1'', [''B1''])], [(''A1'', ''=B1'')]) \<and>
   dep_targets [(''A1'', [''B1''])]
     \<subseteq> set (keys [(''A1'', ''var A1 = B1;''), (''B1'', ''var B1 = 0;'')])"
proof -
  have e: "extract_and_convert_all_cells decimal_float_str [[PyStr ''=B1'']] =
     Inr ([(''A1'', ''var A1 = B1;''), (''B1'', ''var B1 = 0;'')],
          [(''A1'', [''B1''])], [(''A1'', ''=B1'')])"
    by code_simp
  from extracted_graph_closed_in_cells [OF e] e show ?thesis
    by simp
qed

section \<open>The steps of the translator on texts of a known shape\<close>

lemma take1_drop_mem: "take (Suc 0) (drop n s) = [x] \<Longrightarrow> x \<in> set s"
proof -
  assume "take (Suc 0) (drop n s) = [x]"
  then have "x \<in> set (take (Suc 0) (drop n s))" by simp
  then show ?thesis by (meson in_set_dropD in_set_takeD)
qed

lemma re_sub_no_match: "(\<And>n. m (drop n s) = None) \<Longrightarrow> re_sub m f s = Inr s"
proof (induction s)
  case Nil
  show ?case by simp
next
  case (Cons c cs)
  from Cons.prems [of 0] have "m (c # cs) = None" by simp
  moreover have "re_sub m f cs = Inr cs"
  proof (rule Cons.IH)
    fix n
    from Cons.prems [of "Suc n"] show "m (drop n cs) = None" by simp
  qed
  ultimately show ?case by simp
qed

lemma match_comma_percent_none: "CHR '','' \<notin> set s \<Longrightarrow> match_comma_percent s = None"
  by (auto simp: match_comma_percent_def Let_def dest: take1_drop_mem)

lemma match_percent_none: "CHR ''%'' \<notin> set s \<Longrightarrow> match_percent s = None"
  by (auto simp: match_percent_def Let_def dest: take1_drop_mem)

lemma match_comma_decimal_none: "CHR '','' \<notin> set s \<Longrightarrow> match_comma_decimal s = None"
  by (auto simp: match_comma_decimal_def Let_def dest: take1_drop_mem)

lemma re_sub_comma_percent_id:
  "CHR '','' \<notin> set s \<Longrightarrow> re_sub match_comma_percent f s = Inr s"
  by (rule re_sub_no_match) (auto intro!: match_comma_percent_none dest: in_set_dropD)

lemma re_sub_percent_id:
  "CHR ''%'' \<notin> set s \<Longrightarrow> re_sub match_percent f s = Inr s"
  by (rule re_sub_no_match) (auto intro!: match_percent_none dest: in_set_dropD)

lemma re_sub_comma_decimal_id:
  "CHR '','' \<notin> set s \<Longrightarrow> re_sub match_comma_decimal f s = Inr s"
  by (rule re_sub_no_match) (auto intro!: match_comma_decimal_none dest: in_set_dropD)

text \<open>The range-sum of two references that begin with a capital letter.\<close>

lemma is_upper_word: "is_upper c \<Longrightarrow> is_word c"
  by (simp add: is_word_def)

lemma is_digit_word: "is_digit c \<Longrightarrow> is_word c"
  by (simp add: is_word_def)

lemma is_word_not_special:
  "is_word c \<Longrightarrow> c \<noteq> CHR '','' \<and> c \<noteq> CHR ''%'' \<and> c \<noteq> CHR '':'' \<and> c \<noteq> CHR '')'' \<and>
     c \<noteq> CHR ''$'' \<and> c \<noteq> CHR ''+''"
  by (auto simp: is_word_def is_digit_def is_upper_def is_lower_def ord_def)

lemma drop_4: "drop (4 + n) (a # b # c # d # xs) = drop n xs"
  by (simp add: numeral_eq_Suc)

lemma drop_5: "drop (5 + n) (a # b # c # d # xs) = drop (Suc n) xs"
  by (simp add: numeral_eq_Suc)

lemma match_sum_call:
  assumes "list_all is_word r1" "r1 \<noteq> []" "list_all is_word r2" "r2 \<noteq> []"
  shows "match_sum (''SUM('' @ r1 @ '':'' @ r2 @ '')'' @ rest) =
           Some ((r1, r2), 4 + length r1 + 1 + length r2 + 1)"
proof -
  have nw: "\<not> is_word CHR '':''" "\<not> is_word CHR '')''"
    using is_word_not_special by blast+
  from assms(1) nw(1) have w1: "takeWhile is_word (r1 @ CHR '':'' # r2 @ CHR '')'' # rest) = r1"
    by (simp add: list_all_iff takeWhile_append2)
  from assms(3) nw(2) have w2: "takeWhile is_word (r2 @ CHR '')'' # rest) = r2"
    by (simp add: list_all_iff takeWhile_append2)
  have c: "drop (5 + length r1 + length r2)
      (CHR ''S'' # CHR ''U'' # CHR ''M'' # CHR ''('' # r1 @ CHR '':'' # r2 @ CHR '')'' # rest)
      = CHR '')'' # rest"
    by (simp add: add.assoc drop_5)
  show ?thesis
    using assms(2,4)
    by (simp add: match_sum_def w1 w2 drop_4 drop_5 c)
qed

lemma column_index_upper: "is_upper c \<Longrightarrow> column_index_from_string [c] = Inr (ord c - 64)"
  by (auto simp: column_index_from_string_def upper_def is_upper_def is_lower_def)

lemma sum_repl_reversed:
  assumes "is_upper c1" "is_upper c2" "ord c2 < ord c1"
  shows "sum_repl (c1 # w1, c2 # w2) = Inr []"
proof -
  from assms have "nat (int (ord c2 - 64) - int (ord c1 - 64) + 1) = 0"
    by (simp add: is_upper_def)
  with assms(1,2) show ?thesis
    by (simp add: sum_repl_def column_index_upper)
qed

lemma re_sub_whole:
  "m (c # cs) = Some (g, Suc (length cs)) \<Longrightarrow> f g = Inr t \<Longrightarrow> re_sub m f (c # cs) = Inr t"
  by simp

lemma sum_reversed_first_letters:
  assumes "is_upper c1" "is_upper c2" "ord c2 < ord c1"
    and "list_all is_word w1" "list_all is_word w2"
  shows "convert_to_js float_str (''SUM('' @ c1 # w1 @ '':'' @ c2 # w2 @ '')'') = Inr []"
proof -
  let ?s = "''SUM('' @ c1 # w1 @ '':'' @ c2 # w2 @ '')''"
  from assms have words: "list_all is_word (c1 # w1)" "list_all is_word (c2 # w2)"
    by (simp_all add: is_upper_word)
  then have no: "CHR '','' \<notin> set ?s" "CHR ''%'' \<notin> set ?s"
    using is_word_not_special by (auto simp: list_all_iff)
  have m: "match_sum ?s =
      Some ((c1 # w1, c2 # w2), 4 + length (c1 # w1) + 1 + length (c2 # w2) + 1)"
    using match_sum_call [OF words(1) _ words(2), of "[]"] by simp
  have 3: "re_sub match_sum sum_repl ?s = Inr []"
    using m sum_repl_reversed [OF assms(1,2,3), of w1 w2] by simp
  show ?thesis
    by (simp only: convert_to_js_def re_sub_comma_percent_id [OF no(1)]
        re_sub_percent_id [OF no(2)] 3 sum.case str_replace.simps re_sub.simps)
qed


lemma get_column_letter_single:
  assumes "1 \<le> k" "k \<le> 26"
  shows "get_column_letter k = Inr [chr (64 + k)]"
proof -
  from assms have "(k - 1) div 26 = 0" "(k - 1) mod 26 = k - 1" "k \<noteq> 0"
    by simp_all
  then have "column_letters k = [chr (65 + (k - 1))]"
    by (simp add: column_letters.simps [of k] column_letters.simps [of 0])
  moreover from assms have "65 + (k - 1) = 64 + k" by simp
  ultimately show ?thesis
    using assms by (simp add: get_column_letter_def)
qed

lemma sum_terms_single:
  "1 \<le> c1 \<Longrightarrow> (\<forall>i \<in> set is. c1 + i \<le> 26) \<Longrightarrow>
     sum_terms c1 row is = Inr (map (\<lambda>i. chr (64 + (c1 + i)) # row) is)"
  by (induction "is") (simp_all add: get_column_letter_single)

lemma sum_repl_forward:
  assumes "is_upper c1" "is_upper c2" "ord c1 \<le> ord c2"
  shows "sum_repl (c1 # row, c2 # w2) =
           Inr (join ''+'' (map (\<lambda>i. chr (ord c1 + i) # row) [0 ..< Suc (ord c2 - ord c1)]))"
proof -
  from assms have n: "nat (int (ord c2 - 64) - int (ord c1 - 64) + 1) = Suc (ord c2 - ord c1)"
    by (simp add: is_upper_def)
  from assms have b: "1 \<le> ord c1 - 64"
    "\<forall>i \<in> set [0 ..< Suc (ord c2 - ord c1)]. (ord c1 - 64) + i \<le> 26"
    by (auto simp: is_upper_def)
  from assms have "\<And>i. 64 + ((ord c1 - 64) + i) = ord c1 + i"
    by (simp add: is_upper_def)
  with sum_terms_single [OF b, of row] n assms(1,2) show ?thesis
    by (simp add: sum_repl_def column_index_upper)
qed

lemma str_replace_skip:
  "c \<noteq> m \<Longrightarrow> str_replace (m # old) new (c # rest) = c # str_replace (m # old) new rest"
  by auto

lemma str_replace_skip2:
  "d \<noteq> o2 \<Longrightarrow> str_replace (m # o2 # old) new (c # d # rest) =
     c # str_replace (m # o2 # old) new (d # rest)"
  by auto

lemma str_replace_skip_all:
  "m \<notin> set xs \<Longrightarrow> str_replace (m # old) new (xs @ rest) = xs @ str_replace (m # old) new rest"
  by (induction xs) (auto simp del: str_replace.simps simp: str_replace_skip)

lemma str_replace_id: "m \<notin> set xs \<Longrightarrow> str_replace (m # old) new xs = xs"
  using str_replace_skip_all [of m xs old new "[]"] by simp

text \<open>A text made of cell references with one column letter, joined by \<open>+\<close>, holds neither
  \<open>MIN\<close> nor \<open>MAX\<close>: every letter in it is followed by a digit.\<close>

lemma str_replace_refs:
  assumes "row \<noteq> []" "list_all is_digit row" "\<not> is_digit o2" "\<not> is_digit m" "m \<noteq> CHR ''+''"
  shows "str_replace (m # o2 # old) new (join ''+'' (map (\<lambda>l. l # row) ls)) =
           join ''+'' (map (\<lambda>l. l # row) ls)"
proof -
  from assms(1) obtain d ds where row: "row = d # ds" by (cases row) auto
  with assms(2,3,4) have d: "d \<noteq> o2" and m: "m \<notin> set (d # ds)"
    by (auto simp: list_all_iff)
  have one: "str_replace (m # o2 # old) new (l # row @ rest) =
      l # row @ str_replace (m # o2 # old) new rest" for l rest
  proof -
    have "str_replace (m # o2 # old) new (l # d # (ds @ rest)) =
        l # str_replace (m # o2 # old) new (d # (ds @ rest))"
      using d by (rule str_replace_skip2)
    moreover have "str_replace (m # o2 # old) new ((d # ds) @ rest) =
        (d # ds) @ str_replace (m # o2 # old) new rest"
      using m by (rule str_replace_skip_all)
    ultimately show ?thesis by (simp add: row del: str_replace.simps)
  qed
  show ?thesis
  proof (induction ls rule: induct_list012)
    case 1
    show ?case by simp
  next
    case (2 l)
    from one [of l "[]"] show ?case by simp
  next
    case (3 l l' ls)
    have "str_replace (m # o2 # old) new (l # row @ ''+'' @ join ''+'' (map (\<lambda>l. l # row) (l' # ls)))
        = l # row @ str_replace (m # o2 # old) new
            (''+'' @ join ''+'' (map (\<lambda>l. l # row) (l' # ls)))"
      by (rule one)
    also have "str_replace (m # o2 # old) new (''+'' @ join ''+'' (map (\<lambda>l. l # row) (l' # ls)))
        = ''+'' @ str_replace (m # o2 # old) new (join ''+'' (map (\<lambda>l. l # row) (l' # ls)))"
      using assms(5) by (intro str_replace_skip_all) simp
    finally show ?case
      using "3.IH"(2) by simp
  qed
qed

lemma set_join: "set (join sep xs) \<subseteq> set sep \<union> (\<Union>x \<in> set xs. set x)"
  by (induction sep xs rule: join.induct) auto

lemma sum_forward_single_letters:
  assumes "is_upper c1" "is_upper c2" "ord c1 \<le> ord c2"
    and "row \<noteq> []" "list_all is_digit row"
  shows "convert_to_js float_str (''SUM('' @ c1 # row @ '':'' @ c2 # row @ '')'') =
           Inr (join ''+'' (map (\<lambda>i. chr (ord c1 + i) # row) [0 ..< Suc (ord c2 - ord c1)]))"
proof -
  let ?s = "''SUM('' @ c1 # row @ '':'' @ c2 # row @ '')''"
  let ?ls = "map (\<lambda>i. chr (ord c1 + i)) [0 ..< Suc (ord c2 - ord c1)]"
  let ?t = "join ''+'' (map (\<lambda>l. l # row) ?ls)"
  have t: "join ''+'' (map (\<lambda>i. chr (ord c1 + i) # row) [0 ..< Suc (ord c2 - ord c1)]) = ?t"
    by (simp add: comp_def)
  from assms have words: "list_all is_word (c1 # row)" "list_all is_word (c2 # row)"
    by (simp_all add: is_upper_word list_all_iff is_digit_word)
  then have no: "CHR '','' \<notin> set ?s" "CHR ''%'' \<notin> set ?s"
    using is_word_not_special by (auto simp: list_all_iff)
  have m: "match_sum ?s =
      Some ((c1 # row, c2 # row), 4 + length (c1 # row) + 1 + length (c2 # row) + 1)"
    using match_sum_call [OF words(1) _ words(2), of "[]"] by simp
  have 3: "re_sub match_sum sum_repl ?s = Inr ?t"
    using m sum_repl_forward [OF assms(1,2,3), of row row] by (simp add: comp_def)
  have letters: "\<forall>l \<in> set ?ls. is_upper l"
    using assms(1,2,3) by (auto simp: is_upper_def ord_def chr_def)
  have chars: "\<forall>c \<in> set ?t. is_word c \<or> c = CHR ''+''"
    using set_join [of "''+''" "map (\<lambda>l. l # row) ?ls"] letters assms(5)
    by (auto simp: list_all_iff is_upper_word is_digit_word)
  then have no': "CHR '','' \<notin> set ?t" "CHR ''$'' \<notin> set ?t"
    using is_word_not_special by auto
  have nd: "\<not> is_digit CHR ''M''" "\<not> is_digit CHR ''I''" "\<not> is_digit CHR ''A''"
    by (simp_all add: is_digit_def ord_def)
  have 4: "str_replace ''MAX'' ''Math.max'' (str_replace ''MIN'' ''Math.min'' ?t) = ?t"
    using str_replace_refs [OF assms(4,5) nd(2) nd(1), of "''N''" "''Math.min''" ?ls]
      str_replace_refs [OF assms(4,5) nd(3) nd(1), of "''X''" "''Math.max''" ?ls]
    by simp
  have 5: "re_sub match_comma_decimal comma_decimal_repl ?t = Inr ?t"
    using no'(1) by (rule re_sub_comma_decimal_id)
  have 6: "str_replace ''$'' [] ?t = ?t"
    using no'(2) by (rule str_replace_id)
  show ?thesis
    unfolding t
    by (simp only: convert_to_js_def re_sub_comma_percent_id [OF no(1)]
        re_sub_percent_id [OF no(2)] 3 4 5 6 sum.case)
qed


text \<open>Texts that match no pattern.\<close>

lemma match_sum_none: "CHR ''M'' \<notin> set s \<Longrightarrow> match_sum s = None"
proof -
  assume a: "CHR ''M'' \<notin> set s"
  have "take 4 s \<noteq> ''SUM(''"
  proof
    assume "take 4 s = ''SUM(''"
    then have "CHR ''M'' \<in> set (take 4 s)" by simp
    with a show False by (auto dest: in_set_takeD)
  qed
  then show ?thesis by (simp add: match_sum_def Let_def)
qed

lemma re_sub_sum_id: "CHR ''M'' \<notin> set s \<Longrightarrow> re_sub match_sum f s = Inr s"
  by (rule re_sub_no_match) (auto intro!: match_sum_none dest: in_set_dropD)

text \<open>A text without a comma, a percent sign, a dollar sign and the letter \<open>M\<close> matches none
  of the six patterns: the translator returns it unchanged.\<close>

lemma convert_to_js_unchanged:
  assumes "CHR '','' \<notin> set s" "CHR ''%'' \<notin> set s" "CHR ''M'' \<notin> set s" "CHR ''$'' \<notin> set s"
  shows "convert_to_js float_str s = Inr s"
  by (simp only: convert_to_js_def re_sub_comma_percent_id [OF assms(1)]
      re_sub_percent_id [OF assms(2)] re_sub_sum_id [OF assms(3)] str_replace_id [OF assms(3)]
      re_sub_comma_decimal_id [OF assms(1)] str_replace_id [OF assms(4)] sum.case)

section \<open>The translator and the extractor at single inputs\<close>

lemmas matcher_defs = match_comma_percent_def match_percent_def match_sum_def
  match_comma_decimal_def is_digit_def is_word_def is_upper_def is_lower_def ord_def

text \<open>
  C3. The claim: for every input string the translator returns a string and never raises.
  The code raises on the formula \<open>SUM(1:2)\<close>, the sum of the rows 1 to 2 of a sheet: the
  pattern of the range-sum accepts any word characters, the replacement takes the first
  character of each group for a column letter, and the column lookup raises \<open>ValueError\<close>
  for the digit \<open>2\<close>. This holds whatever the float printing does. (A text that matches none
  of the patterns is returned unchanged: \<open>convert_to_js_unchanged\<close>.)
\<close>

theorem convert_to_js_row_range_raises:
  "convert_to_js float_str ''SUM(1:2)'' = Inl (ValueError ''2'')"
  by code_simp

text \<open>
  C7. The claim: \<open>10,5%\<close> translates to an expression of value 0.105. The code adds the
  digits after the comma as hundredths, whatever their number: given that Python prints
  \<open>10 + 5 / 100.0\<close> as \<open>10.05\<close>, the translation of \<open>10,5%\<close> is the text \<open>10.05/100\<close>, whose
  value is 0.1005 and not 0.105.
\<close>

theorem convert_to_js_comma_percent_10_5:
  "float_str 10 5 = Inr ''10.05'' \<Longrightarrow> convert_to_js float_str ''10,5%'' = Inr ''10.05/100''"
  by (simp add: convert_to_js_def matcher_defs comma_percent_repl_def int_of_digits_def)

theorem convert_to_js_comma_percent_10_5_witness:
  "decimal_float_str 10 5 = Inr ''10.05'' \<and>
   convert_to_js decimal_float_str ''10,5%'' = Inr ''10.05/100''"
proof -
  have h: "decimal_float_str 10 5 = Inr ''10.05''"
    by code_simp
  from h convert_to_js_comma_percent_10_5 [of decimal_float_str, OF h] show ?thesis
    by simp
qed

text \<open>
  C5. The claim: every cell that is referenced anywhere but not defined gets the
  declaration with value 0. On a sheet whose only cell is the formula \<open>=SUM(B2:D2)\<close> the
  translated formula references \<open>B2\<close>, \<open>C2\<close> and \<open>D2\<close>, but the references are collected
  from the text before its translation, where \<open>C2\<close> does not occur: \<open>C2\<close> gets no
  declaration, and the program that is produced uses it undeclared.
\<close>

theorem sum_range_interior_undeclared:
  "extract_and_convert_all_cells float_str [[PyStr ''=SUM(B2:D2)'']] =
     Inr ([(''A1'', ''var A1 = B2+C2+D2;''), (''B2'', ''var B2 = 0;''), (''D2'', ''var D2 = 0;'')],
          [(''A1'', [''B2'', ''D2''])],
          [(''A1'', ''=SUM(B2:D2)'')]) \<and>
   convert_excel_to_js float_str [[PyStr ''=SUM(B2:D2)'']] =
     Inr (''var B2 = 0;'' @ [chr 10] @ ''var D2 = 0;'' @ [chr 10] @ ''var A1 = B2+C2+D2;'',
          [(''A1'', ''=SUM(B2:D2)'')])"
  by code_simp

text \<open>
  C4. The claim: every same-row range-sum whose second column is at or after the first
  expands to the sum of all cells from the first column to the second. The replacement
  reads only the first character of each reference as its column and takes the rest of
  the first reference as the row: \<open>SUM(B2:D2)\<close> expands to \<open>B2+C2+D2\<close>, but \<open>SUM(AA1:AC1)\<close>,
  a range over the three columns \<open>AA\<close>, \<open>AB\<close> and \<open>AC\<close>, expands to the single term \<open>AA1\<close>.
  (For columns of one letter the expansion is the one of the claim:
  \<open>sum_forward_single_letters\<close>.)
\<close>

theorem sum_two_letter_columns_one_term:
  "convert_to_js float_str ''SUM(B2:D2)'' = Inr ''B2+C2+D2'' \<and>
   convert_to_js float_str ''SUM(AA1:AC1)'' = Inr ''AA1''"
  by code_simp

text \<open>
  C8. The claim: every same-row range-sum whose second column is before the first expands
  to zero terms. \<open>SUM(D2:B2)\<close> expands to the empty text, but \<open>SUM(AB1:AA1)\<close>, whose second
  column \<open>AA\<close> is before its first column \<open>AB\<close>, expands to the one term \<open>AB1\<close>: only the
  first letters of the two references are compared. (Whenever the first letter of the
  second reference is before the first letter of the first, the expansion is empty:
  \<open>sum_reversed_first_letters\<close>.)
\<close>

theorem sum_reversed_two_letter_columns_one_term:
  "convert_to_js float_str ''SUM(D2:B2)'' = Inr [] \<and>
   convert_to_js float_str ''SUM(AB1:AA1)'' = Inr ''AB1''"
  by code_simp

end
